theory Spec2Isabelle
  imports Main "HOL-Library.AList" "HOL-Library.Word" "HOL-Library.List_Lexorder" "HOL-Library.Char_ord"
begin

section \<open>Data model (core/graph.py)\<close>

text \<open>
  Node keys, port names and type names are Python \<open>str\<close>.  A Python \<open>dict\<close> is an
  association list in insertion order: assignment to a present key replaces the value in
  place, assignment to a new key appends (\<open>AList.update\<close>), \<open>del\<close>/\<open>pop\<close> removes
  (\<open>AList.delete\<close>), lookup is \<open>map_of\<close>.  A Python \<open>set\<close> is a HOL set; where the
  source iterates over a set, the iteration order (hash dependent in Python) is a
  parameter \<open>iter\<close> of the model (see \<open>iterate\<close>).
\<close>

type_synonym key = string
type_synonym 'v dict = "(string \<times> 'v) list"

text \<open>The values that flow through parameters, ports and metadata (\<open>Any\<close>/\<open>object\<close> in
  the source), with one constructor per case that \<open>_normalise_value\<close> tells apart.  A float
  is carried as its IEEE-754 bit pattern, a set as the list of its elements in iteration
  order, an array as shape, dtype name and raw bytes, a pydantic model as class name and
  the value its \<open>model_dump()\<close> returns, another object with a \<open>__dict__\<close> as class name
  and attributes, anything else as its \<open>repr\<close>.\<close>

datatype pyval =
    PyNone
  | PyBool bool
  | PyInt int
  | PyFloat "64 word"
  | PyStr string
  | PyDict "(string \<times> pyval) list"
  | PyList "pyval list"
  | PyTuple "pyval list"
  | PySet "pyval list"
  | NdArray "int list" string "8 word list"
  | PyModel string pyval
  | PyObject string "(string \<times> pyval) list"
  | PyOpaque string

record connection =
  source_node :: key
  source_port :: string

record node =
  node_key :: key
  node_type :: string
  title :: "string option"
  parameters :: "pyval dict"
  node_metadata :: "pyval dict"

record graph =
  graph_name :: string
  graph_metadata :: "pyval dict"
  nodes :: "node dict"
  connections :: "(connection dict) dict"
  dependents :: "(key set) dict"
  dirty :: "key set"

datatype graph_error =
    NodeExists key
  | NodeMissing key
  | SourceMissing key
  | TargetMissing key
  | CycleDetected

datatype sched_error =
    CacheMiss key
  | NodeFailed key string
  | NonMapping key
  | MissingOutputs key key
  | MissingPort key string

datatype error =
    GraphError graph_error
  | SchedulerError sched_error
  | RegistryError string
  | KeyError key
  | TypeError

text \<open>Iterating over a Python set visits each element once, in an order the program
  does not control.  \<open>iterate iter S\<close> is the order \<open>iter\<close> proposes whenever that is an
  enumeration of \<open>S\<close> without repetition, and the sorted one otherwise; every order Python
  may choose for a finite set is \<open>iterate iter S\<close> for some \<open>iter\<close>.\<close>

definition iterate :: "(key set \<Rightarrow> key list) \<Rightarrow> key set \<Rightarrow> key list" where
  "iterate iter S = (if set (iter S) = S \<and> distinct (iter S) then iter S
                     else sorted_list_of_set S)"

definition has_key :: "'v dict \<Rightarrow> string \<Rightarrow> bool" where
  "has_key d k = (k \<in> fst ` set d)"

definition Graph :: "string \<Rightarrow> pyval dict \<Rightarrow> graph" where
  "Graph nm md = \<lparr>graph_name = nm, graph_metadata = md, nodes = [], connections = [],
     dependents = [], dirty = {}\<rparr>"

subsection \<open>Inspection\<close>

definition inputs_for :: "graph \<Rightarrow> key \<Rightarrow> connection dict" where
  "inputs_for g k = (case map_of (connections g) k of None \<Rightarrow> [] | Some ports \<Rightarrow> ports)"

definition dependencies_of :: "graph \<Rightarrow> key \<Rightarrow> key set" where
  "dependencies_of g k = source_node ` snd ` set (inputs_for g k)"

definition dependents_of :: "graph \<Rightarrow> key \<Rightarrow> key set" where
  "dependents_of g k = (case map_of (dependents g) k of None \<Rightarrow> {} | Some s \<Rightarrow> s)"

subsection \<open>Dirty tracking\<close>

definition mark_dirty :: "graph \<Rightarrow> key \<Rightarrow> graph" where
  "mark_dirty g k =
     (if has_key (nodes g) k then g\<lparr>dirty := insert k (dirty g) \<union> dependents_of g k\<rparr> else g)"

definition clear_dirty :: "graph \<Rightarrow> key \<Rightarrow> graph" where
  "clear_dirty g k = g\<lparr>dirty := dirty g - {k}\<rparr>"

subsection \<open>Node management and connections\<close>

definition add_node :: "graph \<Rightarrow> node \<Rightarrow> error + graph" where
  "add_node g n =
     (if has_key (nodes g) (node_key n) then Inl (GraphError (NodeExists (node_key n)))
      else Inr (mark_dirty (g\<lparr>nodes := AList.update (node_key n) n (nodes g)\<rparr>) (node_key n)))"

text \<open>One pass of the outer loop of \<open>remove_node\<close> for one dependent \<open>target\<close>.  Reading
  \<open>self._connections[target]\<close> and \<open>self._dependents[node_key]\<close> goes through a
  \<open>defaultdict\<close>, which inserts an empty entry for an absent key.\<close>

definition drop_connection :: "key \<Rightarrow> key \<Rightarrow> (string \<times> connection) \<Rightarrow> graph \<Rightarrow> graph" where
  "drop_connection k target pc g =
     (if source_node (snd pc) = k
      then mark_dirty (g\<lparr>connections :=
              AList.map_entry target (AList.delete (fst pc)) (connections g)\<rparr>) target
      else g)"

definition remove_from_target :: "key \<Rightarrow> key \<Rightarrow> graph \<Rightarrow> graph" where
  "remove_from_target k target g =
     (let g1 = (if has_key (connections g) target then g
                else g\<lparr>connections := connections g @ [(target, [])]\<rparr>);
          g2 = fold (drop_connection k target) (inputs_for g1 target) g1;
          g3 = (if inputs_for g2 target = []
                then g2\<lparr>connections := AList.delete target (connections g2)\<rparr> else g2)
      in g3\<lparr>dependents := AList.update k (dependents_of g3 k - {target}) (dependents g3)\<rparr>)"

definition remove_node :: "(key set \<Rightarrow> key list) \<Rightarrow> graph \<Rightarrow> key \<Rightarrow> error + graph" where
  "remove_node iter g k =
     (if \<not> has_key (nodes g) k then Inl (GraphError (NodeMissing k))
      else
        let g1 = fold (remove_from_target k) (iterate iter (dependents_of g k)) g;
            g2 = g1\<lparr>dependents := AList.delete k (dependents g1)\<rparr>;
            g3 = g2\<lparr>nodes := AList.delete k (nodes g2)\<rparr>;
            g4 = g3\<lparr>connections := AList.delete k (connections g3)\<rparr>
        in Inr (mark_dirty g4 k))"

definition connect :: "graph \<Rightarrow> key \<Rightarrow> string \<Rightarrow> key \<Rightarrow> string \<Rightarrow> error + graph" where
  "connect g sn sp tn tp =
     (if \<not> has_key (nodes g) sn then Inl (GraphError (SourceMissing sn))
      else if \<not> has_key (nodes g) tn then Inl (GraphError (TargetMissing tn))
      else
        let g1 = g\<lparr>connections := AList.update tn
                    (AList.update tp \<lparr>source_node = sn, source_port = sp\<rparr> (inputs_for g tn))
                    (connections g)\<rparr>;
            g2 = g1\<lparr>dependents := AList.update sn (insert tn (dependents_of g1 sn)) (dependents g1)\<rparr>
        in Inr (mark_dirty g2 tn))"

definition disconnect :: "graph \<Rightarrow> key \<Rightarrow> string \<Rightarrow> graph" where
  "disconnect g n p =
     (case map_of (inputs_for g n) p of
        None \<Rightarrow> g
      | Some c \<Rightarrow>
          let g1 = g\<lparr>connections := AList.map_entry n (AList.delete p) (connections g)\<rparr>;
              g2 = (if inputs_for g1 n = []
                    then g1\<lparr>connections := AList.delete n (connections g1)\<rparr> else g1);
              g3 = g2\<lparr>dependents := AList.update (source_node c)
                        (dependents_of g2 (source_node c) - {n}) (dependents g2)\<rparr>
          in mark_dirty g3 n)"

subsection \<open>Sequences of mutations\<close>

text \<open>A mutation that raises does so before it changes anything, so the graph a caller
  holds after a failed call is the graph before it.\<close>

datatype mutation =
    AddNode node
  | RemoveNode key
  | Connect key string key string
  | Disconnect key string

fun mutate :: "(key set \<Rightarrow> key list) \<Rightarrow> graph \<Rightarrow> mutation \<Rightarrow> error + graph" where
  "mutate iter g (AddNode n) = add_node g n"
| "mutate iter g (RemoveNode k) = remove_node iter g k"
| "mutate iter g (Connect sn sp tn tp) = connect g sn sp tn tp"
| "mutate iter g (Disconnect n p) = Inr (disconnect g n p)"

fun mutate_all :: "(key set \<Rightarrow> key list) \<Rightarrow> graph \<Rightarrow> mutation list \<Rightarrow> graph" where
  "mutate_all iter g [] = g"
| "mutate_all iter g (m # ms) =
     (case mutate iter g m of Inl e \<Rightarrow> mutate_all iter g ms | Inr g' \<Rightarrow> mutate_all iter g' ms)"

definition transpose_exact :: "graph \<Rightarrow> bool" where
  "transpose_exact g =
     (\<forall>s t. t \<in> dependents_of g s \<longleftrightarrow> s \<in> dependencies_of g t)"

definition plain_node :: "key \<Rightarrow> string \<Rightarrow> node" where
  "plain_node k ty = \<lparr>node_key = k, node_type = ty, title = None, parameters = [],
     node_metadata = []\<rparr>"


subsection \<open>Ordering\<close>

text \<open>
  \<open>topological_order\<close> drives \<open>graphlib.TopologicalSorter\<close> of the Python standard
  library, which is modelled here after its implementation: \<open>_node2info\<close> maps each node
  to its count of unprocessed predecessors and the list of its successors;
  \<open>add(node, *predecessors)\<close> creates missing entries, adds the number of predecessors to
  the node's count and appends the node to each predecessor's successors;
  \<open>prepare()\<close> collects the nodes with count zero; \<open>static_order()\<close> repeats
  \<open>get_ready()\<close> (pass the ready nodes out, marking them \<open>_NODE_OUT = -1\<close>) and
  \<open>done(*group)\<close> (mark each \<open>_NODE_DONE = -2\<close>, decrement its successors, append
  those that reach zero to the ready list) while \<open>is_active()\<close>.  Between two rounds
  \<open>_nfinished = _npassedout\<close>, so \<open>is_active()\<close> is "the ready list is not empty".
  \<open>prepare()\<close> raises \<open>CycleError\<close> exactly when the graph has a cycle; since
  \<open>topological_order\<close> consumes the whole iterator inside one \<open>try\<close>, that is observed as:
  the rounds end before every node has been passed out (lemma \<open>static_order_built\<close>
  below proves, for the sorters \<open>topological_order\<close> builds, that this happens
  exactly when there is a cycle).
\<close>

record nodeinfo =
  npredecessors :: int
  successors :: "key list"

type_synonym node2info = "nodeinfo dict"

definition get_nodeinfo :: "node2info \<Rightarrow> key \<Rightarrow> node2info" where
  "get_nodeinfo s n =
     (if has_key s n then s else s @ [(n, \<lparr>npredecessors = 0, successors = []\<rparr>)])"

definition add_successor :: "key \<Rightarrow> key \<Rightarrow> node2info \<Rightarrow> node2info" where
  "add_successor n pred s =
     AList.map_entry pred (\<lambda>i. i\<lparr>successors := successors i @ [n]\<rparr>) (get_nodeinfo s pred)"

definition sorter_add :: "node2info \<Rightarrow> key \<Rightarrow> key list \<Rightarrow> node2info" where
  "sorter_add s n preds =
     fold (add_successor n) preds
       (AList.map_entry n (\<lambda>i. i\<lparr>npredecessors := npredecessors i + int (length preds)\<rparr>)
          (get_nodeinfo s n))"

definition prepare :: "node2info \<Rightarrow> key list" where
  "prepare s = map fst (filter (\<lambda>(n, i). npredecessors i = 0) s)"

definition get_ready :: "node2info \<Rightarrow> key list \<Rightarrow> node2info" where
  "get_ready s ready = fold (\<lambda>n. AList.map_entry n (\<lambda>i. i\<lparr>npredecessors := - 1\<rparr>)) ready s"

definition done_successor :: "key \<Rightarrow> node2info \<times> key list \<Rightarrow> node2info \<times> key list" where
  "done_successor t sr =
     (case map_of (fst sr) t of
        None \<Rightarrow> sr
      | Some i \<Rightarrow>
          (AList.update t (i\<lparr>npredecessors := npredecessors i - 1\<rparr>) (fst sr),
           if npredecessors i - 1 = 0 then snd sr @ [t] else snd sr))"

definition done_node :: "key \<Rightarrow> node2info \<times> key list \<Rightarrow> node2info \<times> key list" where
  "done_node n sr =
     (case map_of (fst sr) n of
        None \<Rightarrow> sr
      | Some i \<Rightarrow>
          fold done_successor (successors i)
            (AList.update n (i\<lparr>npredecessors := - 2\<rparr>) (fst sr), snd sr))"

definition sorter_done :: "node2info \<Rightarrow> key list \<Rightarrow> node2info \<times> key list" where
  "sorter_done s nodes_out = fold done_node nodes_out (s, [])"

definition graph_sources :: "graph \<Rightarrow> key set" where
  "graph_sources g = (\<Union>k \<in> fst ` set (connections g). dependencies_of g k)"

text \<open>Termination of the rounds of \<open>static_order\<close>: the nodes with a positive count
  only become fewer, and every node appended to the ready list has just left them.\<close>

definition positive :: "node2info \<Rightarrow> key set" where
  "positive s = {k. \<exists>i. map_of s k = Some i \<and> 0 < npredecessors i}"

lemma finite_positive: "finite (positive s)"
proof -
  have "positive s \<subseteq> fst ` set s"
    by (auto simp: positive_def dest: map_of_SomeD intro: rev_image_eqI)
  then show ?thesis by (rule finite_subset) simp
qed

lemma positive_update_le:
  "map_of s k = Some i \<Longrightarrow> npredecessors j \<le> npredecessors i \<Longrightarrow>
   positive (AList.update k j s) \<subseteq> positive s"
  by (auto simp: positive_def update_conv' split: if_splits)

lemma positive_map_entry_neg:
  "positive (AList.map_entry k (\<lambda>i. i\<lparr>npredecessors := - 1\<rparr>) s) \<subseteq> positive s"
  by (auto simp: positive_def map_of_map_entry split: if_splits option.splits)

lemma positive_get_ready: "positive (get_ready s ready) \<subseteq> positive s"
  unfolding get_ready_def
proof (induction ready arbitrary: s)
  case Nil show ?case by simp
next
  case (Cons a ready)
  show ?case using Cons[of "AList.map_entry a (\<lambda>i. i\<lparr>npredecessors := - 1\<rparr>) s"] positive_map_entry_neg[of a s]
    by auto
qed

lemma done_successor_measure:
  "card (positive (fst (done_successor t sr))) + length (snd (done_successor t sr))
     \<le> card (positive (fst sr)) + length (snd sr)"
proof (cases "map_of (fst sr) t")
  case None then show ?thesis by (simp add: done_successor_def)
next
  case (Some i)
  let ?s' = "AList.update t (i\<lparr>npredecessors := npredecessors i - 1\<rparr>) (fst sr)"
  have sub: "positive ?s' \<subseteq> positive (fst sr)"
    using Some by (intro positive_update_le) auto
  show ?thesis
  proof (cases "npredecessors i - 1 = 0")
    case True
    have "t \<in> positive (fst sr)" using Some True by (auto simp: positive_def)
    moreover have "t \<notin> positive ?s'" using True by (auto simp: positive_def update_conv')
    ultimately have "positive ?s' \<subset> positive (fst sr)" using sub by auto
    then have "card (positive ?s') < card (positive (fst sr))"
      by (intro psubset_card_mono finite_positive)
    then show ?thesis using Some True by (simp add: done_successor_def)
  next
    case False
    have "card (positive ?s') \<le> card (positive (fst sr))"
      using sub by (intro card_mono finite_positive)
    then show ?thesis using Some False by (simp add: done_successor_def)
  qed
qed

lemma fold_done_successor_measure:
  "card (positive (fst (fold done_successor ts sr))) + length (snd (fold done_successor ts sr))
     \<le> card (positive (fst sr)) + length (snd sr)"
proof (induction ts arbitrary: sr)
  case Nil show ?case by simp
next
  case (Cons t ts)
  show ?case using Cons[of "done_successor t sr"] done_successor_measure[of t sr] by simp
qed

lemma done_node_measure:
  "card (positive (fst (done_node n sr))) + length (snd (done_node n sr))
     \<le> card (positive (fst sr)) + length (snd sr)"
proof (cases "map_of (fst sr) n")
  case None then show ?thesis by (simp add: done_node_def)
next
  case (Some i)
  let ?s' = "AList.update n (i\<lparr>npredecessors := - 2\<rparr>) (fst sr)"
  have "positive ?s' \<subseteq> positive (fst sr)"
    by (auto simp: positive_def update_conv' split: if_splits)
  then have "card (positive ?s') \<le> card (positive (fst sr))"
    by (intro card_mono finite_positive)
  then show ?thesis
    using Some fold_done_successor_measure[of "successors i" "(?s', snd sr)"]
    by (simp add: done_node_def)
qed

lemma sorter_done_measure:
  "card (positive (fst (sorter_done s grp))) + length (snd (sorter_done s grp))
     \<le> card (positive s)"
proof -
  have "card (positive (fst (fold done_node ns sr))) + length (snd (fold done_node ns sr))
     \<le> card (positive (fst sr)) + length (snd sr)" for ns sr
  proof (induction ns arbitrary: sr)
    case Nil show ?case by simp
  next
    case (Cons n ns)
    show ?case using Cons[of "done_node n sr"] done_node_measure[of n sr] by simp
  qed
  from this[of grp "(s, [])"] show ?thesis by (simp add: sorter_done_def)
qed

function static_loop :: "node2info \<Rightarrow> key list \<Rightarrow> key list \<Rightarrow> key list" where
  "static_loop s ready out =
     (if ready = [] then out
      else case sorter_done (get_ready s ready) ready of
             (s', ready') \<Rightarrow> static_loop s' ready' (out @ ready))"
  by pat_completeness auto
termination
  apply (relation "measure (\<lambda>(s, ready, out). card (positive s) + length ready)")
   apply simp
  subgoal for s ready out x1 x2
    using sorter_done_measure[of "get_ready s ready" ready]
      card_mono[OF finite_positive positive_get_ready[of s ready]]
    by (cases ready) (auto dest!: sym[of "(x1, x2)"])
  done


definition static_order :: "node2info \<Rightarrow> key list option" where
  "static_order s =
     (let out = static_loop s (prepare s) []
      in if length out < length s then None else Some out)"

text \<open>\<open>_add_dependencies_recursive\<close> calls itself for each dependency in turn, sharing
  \<open>sorter\<close> and \<open>visited\<close>.  The model keeps the pending calls on a list: the head is
  the call being made, the dependencies of a newly visited node are put in front of the
  calls that were already pending, which is the order in which the recursion makes them.
  The loop of \<open>topological_order\<close> over \<open>target_nodes\<close> is the initial list of pending
  calls.\<close>

lemma set_iterate_subset: "set (iterate iter S) \<subseteq> S"
proof (cases "finite S")
  case True then show ?thesis by (simp add: iterate_def)
next
  case False
  then have "sorted_list_of_set S = []" by simp
  then show ?thesis by (auto simp: iterate_def)
qed

lemma dependencies_of_sources: "dependencies_of g k \<subseteq> graph_sources g"
proof (cases "map_of (connections g) k")
  case None then show ?thesis by (simp add: dependencies_of_def inputs_for_def)
next
  case (Some ports)
  then have "k \<in> fst ` set (connections g)" by (auto dest: map_of_SomeD intro: rev_image_eqI)
  then show ?thesis unfolding graph_sources_def by blast
qed

lemma finite_graph_sources: "finite (graph_sources g)"
  by (simp add: graph_sources_def dependencies_of_def)

function add_dependencies ::
  "(key set \<Rightarrow> key list) \<Rightarrow> graph \<Rightarrow> key list \<Rightarrow> node2info \<Rightarrow> key set \<Rightarrow> node2info \<times> key set"
where
  "add_dependencies iter g [] sorter visited = (sorter, visited)"
| "add_dependencies iter g (k # pending) sorter visited =
     (if k \<in> visited then add_dependencies iter g pending sorter visited
      else
        let deps = iterate iter (dependencies_of g k)
        in add_dependencies iter g (deps @ pending) (sorter_add sorter k deps) (insert k visited))"
  by pat_completeness auto
termination
proof (relation "inv_image (less_than <*lex*> less_than)
          (\<lambda>(iter, g, pending, sorter, visited).
             (card ((set pending \<union> graph_sources g) - visited), length pending))", goal_cases)
  case 1 show ?case by (intro wf_inv_image wf_lex_prod wf_less_than)
next
  case (2 iter g k pending sorter visited)
  have "(set pending \<union> graph_sources g) - visited \<subseteq> (set (k # pending) \<union> graph_sources g) - visited"
    by auto
  then have "card ((set pending \<union> graph_sources g) - visited)
      \<le> card ((set (k # pending) \<union> graph_sources g) - visited)"
    by (intro card_mono) (auto simp: finite_graph_sources)
  then show ?case by auto
next
  case (3 iter g k pending sorter visited deps)
  have "set deps \<subseteq> graph_sources g"
    using 3(2) set_iterate_subset[of iter "dependencies_of g k"] dependencies_of_sources[of g k]
    by auto
  then have "(set (deps @ pending) \<union> graph_sources g) - insert k visited
      \<subset> (set (k # pending) \<union> graph_sources g) - visited"
    using 3(1) by auto
  then have "card ((set (deps @ pending) \<union> graph_sources g) - insert k visited)
      < card ((set (k # pending) \<union> graph_sources g) - visited)"
    by (intro psubset_card_mono) (auto simp: finite_graph_sources)
  then show ?case by auto
qed

definition topological_order ::
  "(key set \<Rightarrow> key list) \<Rightarrow> graph \<Rightarrow> key list option \<Rightarrow> error + key list" where
  "topological_order iter g limit_to =
     (let target_nodes = (case limit_to of
                            None \<Rightarrow> fst ` set (nodes g)
                          | Some ks \<Rightarrow> set (filter (has_key (nodes g)) ks))
      in if limit_to \<noteq> None \<and> target_nodes = {} then Inr []
         else
           case static_order (fst (add_dependencies iter g (iterate iter target_nodes) [] {})) of
             None \<Rightarrow> Inl (GraphError CycleDetected)
           | Some order \<Rightarrow> Inr order)"

section \<open>Scheduler (core/runtime.py)\<close>

subsection \<open>Signatures\<close>

text \<open>
  \<open>hashlib\<close> and the JSON encoder are library code.  The model takes them as the fields
  of a \<open>platform\<close>: \<open>sha1_hexdigest\<close> and \<open>sha256_hexdigest\<close> are the two digests,
  \<open>json_encode\<close> writes a value whose dictionaries are already in the order to be
  written (\<open>None\<close> when the value is not JSON serialisable, where \<open>json.dumps\<close> raises
  \<open>TypeError\<close>), and \<open>set_order\<close> is the iteration order of sets.
  \<open>json.dumps(payload, sort_keys=True)\<close> is \<open>json_encode\<close> after \<open>sort_keys\<close>, which
  orders the items of every dictionary by key.
\<close>

record platform =
  set_order :: "key set \<Rightarrow> key list"
  sha1_hexdigest :: "8 word list \<Rightarrow> string"
  sha256_hexdigest :: "string \<Rightarrow> string"
  json_encode :: "pyval \<Rightarrow> string option"

text \<open>A dictionary comprehension inserts its items one after the other.\<close>

definition dict_of :: "(string \<times> 'v) list \<Rightarrow> 'v dict" where
  "dict_of kvs = fold (\<lambda>(k, v). AList.update k v) kvs []"

fun normalise_value :: "(8 word list \<Rightarrow> string) \<Rightarrow> pyval \<Rightarrow> pyval" where
  "normalise_value sha1 PyNone = PyNone"
| "normalise_value sha1 (PyBool b) = PyBool b"
| "normalise_value sha1 (PyInt i) = PyInt i"
| "normalise_value sha1 (PyFloat x) = PyFloat x"
| "normalise_value sha1 (PyStr s) = PyStr s"
| "normalise_value sha1 (PyDict kvs) =
     PyDict (dict_of (map (\<lambda>(k, v). (k, normalise_value sha1 v)) (sort_key fst kvs)))"
| "normalise_value sha1 (PyList xs) = PyList (map (normalise_value sha1) xs)"
| "normalise_value sha1 (PyTuple xs) = PyList (map (normalise_value sha1) xs)"
| "normalise_value sha1 (PySet xs) = PyList (map (normalise_value sha1) xs)"
| "normalise_value sha1 (NdArray shape dtype bytes) =
     PyDict [(''__ndarray__'', PyBool True),
             (''shape'', PyTuple (map PyInt shape)),
             (''dtype'', PyStr dtype),
             (''digest'', PyStr (sha1 bytes))]"
| "normalise_value sha1 (PyModel cls dump) = dump"
| "normalise_value sha1 (PyObject cls attrs) =
     PyDict [(''__object__'', PyStr cls),
             (''data'', PyDict (dict_of (map (\<lambda>(k, v). (k, normalise_value sha1 v))
                                           (sort_key fst attrs))))]"
| "normalise_value sha1 (PyOpaque r) = PyStr r"

fun sort_keys :: "pyval \<Rightarrow> pyval" where
  "sort_keys (PyDict kvs) = PyDict (map (\<lambda>(k, v). (k, sort_keys v)) (sort_key fst kvs))"
| "sort_keys (PyList xs) = PyList (map sort_keys xs)"
| "sort_keys (PyTuple xs) = PyTuple (map sort_keys xs)"
| "sort_keys v = v"

definition signature_payload :: "(8 word list \<Rightarrow> string) \<Rightarrow> node \<Rightarrow> pyval dict \<Rightarrow> pyval" where
  "signature_payload sha1 n inputs =
     PyDict [(''node'', PyStr (node_key n)),
             (''type'', PyStr (node_type n)),
             (''parameters'', normalise_value sha1 (PyDict (parameters n))),
             (''inputs'', normalise_value sha1 (PyDict inputs))]"

definition make_signature :: "platform \<Rightarrow> node \<Rightarrow> pyval dict \<Rightarrow> error + string" where
  "make_signature pf n inputs =
     (case json_encode pf (sort_keys (signature_payload (sha1_hexdigest pf) n inputs)) of
        None \<Rightarrow> Inl TypeError
      | Some data \<Rightarrow> Inr (sha256_hexdigest pf data))"

subsection \<open>Execution cache and context\<close>

record execution_cache =
  cache_values :: "(pyval dict) dict"
  cache_signatures :: "string dict"

definition ExecutionCache :: execution_cache where
  "ExecutionCache = \<lparr>cache_values = [], cache_signatures = []\<rparr>"

definition cache_get :: "execution_cache \<Rightarrow> key \<Rightarrow> pyval dict option" where
  "cache_get c k = map_of (cache_values c) k"

definition cache_store :: "execution_cache \<Rightarrow> key \<Rightarrow> string \<Rightarrow> pyval dict \<Rightarrow> execution_cache" where
  "cache_store c k sig outputs =
     \<lparr>cache_values = AList.update k outputs (cache_values c),
      cache_signatures = AList.update k sig (cache_signatures c)\<rparr>"

definition is_valid :: "execution_cache \<Rightarrow> key \<Rightarrow> string \<Rightarrow> bool" where
  "is_valid c k sig = (map_of (cache_signatures c) k = Some sig)"

definition invalidate :: "execution_cache \<Rightarrow> key \<Rightarrow> execution_cache" where
  "invalidate c k =
     \<lparr>cache_values = AList.delete k (cache_values c),
      cache_signatures = AList.delete k (cache_signatures c)\<rparr>"

record runtime_performance =
  enable_multiprocessing :: bool
  perf_enable_memoization :: bool
  worker_concurrency :: int

record app_configuration =
  performance :: runtime_performance
  config_metadata :: "pyval dict"

record runtime_context =
  configuration :: "app_configuration option"
  state :: "pyval dict"

definition RuntimeContext :: runtime_context where
  "RuntimeContext = \<lparr>configuration = None, state = []\<rparr>"

definition enable_memoization :: "runtime_context \<Rightarrow> bool" where
  "enable_memoization ctx =
     (case configuration ctx of
        None \<Rightarrow> True
      | Some cfg \<Rightarrow> perf_enable_memoization (performance cfg))"

subsection \<open>Handlers and the scheduler\<close>

text \<open>
  A handler is called with the node, the resolved inputs and the context; it raises or
  returns a value, which need not be a mapping.  No handler of the repository reads or
  writes the graph, the cache or the context, so a handler is a function of its three
  arguments.  The registry is its \<open>get\<close> (the lookup after \<open>lower()\<close>): \<open>None\<close> is the
  \<open>RegistryError\<close> of an unknown type.  The scheduler owns the graph and the cache;
  \<open>invocations\<close> records the handler calls (the node keys, in call order) and
  \<open>progress_calls\<close> the calls of the progress callback.
\<close>

datatype handler_outcome = Raised string | Returned pyval

type_synonym handler = "node \<Rightarrow> pyval dict \<Rightarrow> runtime_context \<Rightarrow> handler_outcome"
type_synonym registry = "string \<Rightarrow> handler option"
type_synonym results = "(pyval dict) dict"

record scheduler =
  sched_graph :: graph
  sched_cache :: execution_cache
  invocations :: "key list"
  progress_calls :: "(nat \<times> nat \<times> string) list"

definition GraphScheduler :: "graph \<Rightarrow> execution_cache option \<Rightarrow> scheduler" where
  "GraphScheduler g cache =
     \<lparr>sched_graph = g,
      sched_cache = (case cache of None \<Rightarrow> ExecutionCache | Some c \<Rightarrow> c),
      invocations = [], progress_calls = []\<rparr>"

text \<open>\<open>current_outputs or cached_outputs\<close>: the outputs of this pass unless they are
  missing or an empty mapping (which is false in Python), the cached ones then.\<close>

definition source_outputs :: "execution_cache \<Rightarrow> results \<Rightarrow> key \<Rightarrow> pyval dict option" where
  "source_outputs c res src =
     (case map_of res src of
        None \<Rightarrow> cache_get c src
      | Some current \<Rightarrow> if current = [] then cache_get c src else Some current)"

fun collect_ports ::
  "execution_cache \<Rightarrow> results \<Rightarrow> key \<Rightarrow> connection dict \<Rightarrow> pyval dict \<Rightarrow> error + pyval dict"
where
  "collect_ports c res k [] inputs = Inr inputs"
| "collect_ports c res k ((port_name, conn) # rest) inputs =
     (case source_outputs c res (source_node conn) of
        None \<Rightarrow> Inl (SchedulerError (MissingOutputs (source_node conn) k))
      | Some outs \<Rightarrow>
          (case map_of outs (source_port conn) of
             None \<Rightarrow> Inl (SchedulerError (MissingPort (source_node conn) (source_port conn)))
           | Some v \<Rightarrow> collect_ports c res k rest (AList.update port_name v inputs)))"

definition collect_inputs :: "scheduler \<Rightarrow> key \<Rightarrow> results \<Rightarrow> error + pyval dict" where
  "collect_inputs sch k res = collect_ports (sched_cache sch) res k (inputs_for (sched_graph sch) k) []"

definition use_cache :: "bool \<Rightarrow> runtime_context \<Rightarrow> scheduler \<Rightarrow> key \<Rightarrow> string \<Rightarrow> bool" where
  "use_cache force ctx sch k sig =
     (\<not> force \<and> enable_memoization ctx \<and> k \<notin> dirty (sched_graph sch)
      \<and> is_valid (sched_cache sch) k sig)"

text \<open>The end of the loop body: record the outputs, clear the dirty flag, report
  progress.\<close>

definition record_outputs ::
  "bool \<Rightarrow> nat \<Rightarrow> nat \<Rightarrow> key \<Rightarrow> pyval dict \<Rightarrow> results \<Rightarrow> scheduler \<Rightarrow> results \<times> scheduler" where
  "record_outputs progress index ntotal k outputs res sch =
     (AList.update k outputs res,
      sch\<lparr>sched_graph := clear_dirty (sched_graph sch) k,
          progress_calls := (if progress then progress_calls sch @ [(index, ntotal, k)]
                             else progress_calls sch)\<rparr>)"

definition evaluate_node ::
  "platform \<Rightarrow> registry \<Rightarrow> runtime_context \<Rightarrow> bool \<Rightarrow> bool \<Rightarrow> nat \<Rightarrow> nat \<Rightarrow> key \<Rightarrow>
   results \<Rightarrow> scheduler \<Rightarrow> (error + results) \<times> scheduler" where
  "evaluate_node pf reg ctx force progress ntotal index k res sch =
     (case map_of (nodes (sched_graph sch)) k of
        None \<Rightarrow> (Inl (KeyError k), sch)
      | Some n \<Rightarrow>
     (case collect_inputs sch k res of
        Inl e \<Rightarrow> (Inl e, sch)
      | Inr input_values \<Rightarrow>
     (case make_signature pf n input_values of
        Inl e \<Rightarrow> (Inl e, sch)
      | Inr sig \<Rightarrow>
          if use_cache force ctx sch k sig then
            (case cache_get (sched_cache sch) k of
               None \<Rightarrow> (Inl (SchedulerError (CacheMiss k)), sch)
             | Some outputs \<Rightarrow>
                 (case record_outputs progress index ntotal k outputs res sch of
                    (res', sch') \<Rightarrow> (Inr res', sch')))
          else
            (case reg (node_type n) of
               None \<Rightarrow> (Inl (RegistryError (node_type n)), sch)
             | Some h \<Rightarrow>
                 let sch1 = sch\<lparr>invocations := invocations sch @ [k]\<rparr> in
                 (case h n input_values ctx of
                    Raised msg \<Rightarrow> (Inl (SchedulerError (NodeFailed (node_key n) msg)), sch1)
                  | Returned (PyDict outputs) \<Rightarrow>
                      let sch2 = (if enable_memoization ctx
                                  then sch1\<lparr>sched_cache := cache_store (sched_cache sch1) k sig outputs\<rparr>
                                  else sch1)
                      in (case record_outputs progress index ntotal k outputs res sch2 of
                            (res', sch') \<Rightarrow> (Inr res', sch'))
                  | Returned _ \<Rightarrow> (Inl (SchedulerError (NonMapping (node_key n))), sch1))))))"

fun evaluate_loop ::
  "platform \<Rightarrow> registry \<Rightarrow> runtime_context \<Rightarrow> bool \<Rightarrow> bool \<Rightarrow> nat \<Rightarrow> (nat \<times> key) list \<Rightarrow>
   results \<Rightarrow> scheduler \<Rightarrow> (error + results) \<times> scheduler" where
  "evaluate_loop pf reg ctx force progress ntotal [] res sch = (Inr res, sch)"
| "evaluate_loop pf reg ctx force progress ntotal ((index, k) # rest) res sch =
     (case evaluate_node pf reg ctx force progress ntotal index k res sch of
        (Inl e, sch') \<Rightarrow> (Inl e, sch')
      | (Inr res', sch') \<Rightarrow> evaluate_loop pf reg ctx force progress ntotal rest res' sch')"

definition evaluate ::
  "platform \<Rightarrow> registry \<Rightarrow> key list option \<Rightarrow> runtime_context option \<Rightarrow> bool \<Rightarrow> bool \<Rightarrow>
   scheduler \<Rightarrow> (error + results) \<times> scheduler" where
  "evaluate pf reg targets context force progress sch =
     (let ctx = (case context of None \<Rightarrow> RuntimeContext | Some c \<Rightarrow> c);
          result_nodes = (case targets of
                            None \<Rightarrow> map fst (nodes (sched_graph sch))
                          | Some ts \<Rightarrow> filter (has_key (nodes (sched_graph sch))) ts)
      in if result_nodes = [] then (Inr [], sch)
         else
           case topological_order (set_order pf) (sched_graph sch) (Some result_nodes) of
             Inl e \<Rightarrow> (Inl e, sch)
           | Inr execution_order \<Rightarrow>
               let ntotal = length execution_order;
                   sch0 = (if progress then sch\<lparr>progress_calls := progress_calls sch @ [(0, ntotal, [])]\<rparr>
                           else sch)
               in case evaluate_loop pf reg ctx force progress ntotal
                         (zip [1 ..< Suc ntotal] execution_order) [] sch0 of
                    (Inl e, sch') \<Rightarrow> (Inl e, sch')
                  | (Inr res, sch') \<Rightarrow>
                      (Inr (dict_of (map (\<lambda>n. (n, the (map_of res n)))
                                        (filter (has_key res) result_nodes))), sch'))"

section \<open>Project serialisation (core/project.py)\<close>

text \<open>
  \<open>_graph_to_dict\<close> returns a dictionary with the keys \<open>name\<close>, \<open>metadata\<close>, \<open>nodes\<close>
  and \<open>connections\<close>; \<open>_graph_from_dict\<close> reads each of them with a default, so the
  payload is a record of optional fields.  A serialised node always has \<open>key\<close> and
  \<open>type\<close> (they are read with \<open>node_data["key"]\<close>); \<open>title\<close>, \<open>parameters\<close> and
  \<open>metadata\<close> are read with \<open>get\<close>.
\<close>

record node_data =
  nd_key :: key
  nd_type :: string
  nd_title :: "string option"
  nd_parameters :: "pyval dict option"
  nd_metadata :: "pyval dict option"

record connection_data =
  cd_source_node :: key
  cd_source_port :: string

record graph_payload =
  pl_name :: "string option"
  pl_metadata :: "pyval dict option"
  pl_nodes :: "node_data list option"
  pl_connections :: "(connection_data dict) dict option"

definition node_to_dict :: "node \<Rightarrow> node_data" where
  "node_to_dict n =
     \<lparr>nd_key = node_key n, nd_type = node_type n, nd_title = title n,
      nd_parameters = Some (parameters n), nd_metadata = Some (node_metadata n)\<rparr>"

definition connection_to_dict :: "connection \<Rightarrow> connection_data" where
  "connection_to_dict c = \<lparr>cd_source_node = source_node c, cd_source_port = source_port c\<rparr>"

definition graph_to_dict :: "graph \<Rightarrow> graph_payload" where
  "graph_to_dict g =
     \<lparr>pl_name = Some (graph_name g),
      pl_metadata = Some (graph_metadata g),
      pl_nodes = Some (map (\<lambda>(k, n). node_to_dict n) (nodes g)),
      pl_connections = Some (dict_of
         (map (\<lambda>k. (k, dict_of (map (\<lambda>(port, c). (port, connection_to_dict c))
                                    (inputs_for g k))))
              (map fst (nodes g))))\<rparr>"

definition node_from_dict :: "node_data \<Rightarrow> node" where
  "node_from_dict d =
     \<lparr>node_key = nd_key d, node_type = nd_type d, title = nd_title d,
      parameters = (case nd_parameters d of None \<Rightarrow> [] | Some ps \<Rightarrow> ps),
      node_metadata = (case nd_metadata d of None \<Rightarrow> [] | Some md \<Rightarrow> md)\<rparr>"

fun add_nodes :: "graph \<Rightarrow> node_data list \<Rightarrow> error + graph" where
  "add_nodes g [] = Inr g"
| "add_nodes g (d # ds) =
     (case add_node g (node_from_dict d) of Inl e \<Rightarrow> Inl e | Inr g' \<Rightarrow> add_nodes g' ds)"

fun connect_ports :: "graph \<Rightarrow> key \<Rightarrow> connection_data dict \<Rightarrow> error + graph" where
  "connect_ports g k [] = Inr g"
| "connect_ports g k ((port_name, c) # ports) =
     (case connect g (cd_source_node c) (cd_source_port c) k port_name of
        Inl e \<Rightarrow> Inl e
      | Inr g' \<Rightarrow> connect_ports g' k ports)"

fun connect_all :: "graph \<Rightarrow> (connection_data dict) dict \<Rightarrow> error + graph" where
  "connect_all g [] = Inr g"
| "connect_all g ((k, ports) # rest) =
     (case connect_ports g k ports of Inl e \<Rightarrow> Inl e | Inr g' \<Rightarrow> connect_all g' rest)"

definition graph_from_dict :: "graph_payload \<Rightarrow> error + graph" where
  "graph_from_dict payload =
     (let g = Graph (case pl_name payload of None \<Rightarrow> ''Graph'' | Some nm \<Rightarrow> nm)
                    (case pl_metadata payload of None \<Rightarrow> [] | Some md \<Rightarrow> md)
      in case add_nodes g (case pl_nodes payload of None \<Rightarrow> [] | Some ns \<Rightarrow> ns) of
           Inl e \<Rightarrow> Inl e
         | Inr g' \<Rightarrow>
             connect_all g' (case pl_connections payload of None \<Rightarrow> [] | Some cs \<Rightarrow> cs))"

subsection \<open>Node.update_parameters and an example installation\<close>

definition update_parameters :: "node \<Rightarrow> pyval dict \<Rightarrow> node" where
  "update_parameters n updates =
     n\<lparr>parameters := fold (\<lambda>(k, v). AList.update k v) updates (parameters n)\<rparr>"

text \<open>The examples below run on a small installation: sets are iterated in the order of
  a fixed list, the encoder writes strings, the integers 0 to 3 and 8, booleans, \<open>None\<close>,
  lists and dictionaries, the SHA-256 stand-in is the identity; the handler \<open>emit\<close>
  returns the node's parameters as its outputs, \<open>echo\<close> returns its inputs and
  \<open>failing\<close> raises.  The registry looks a type up after \<open>lower()\<close> (here on the
  letters A to Z).\<close>

definition listed_order :: "key list \<Rightarrow> key set \<Rightarrow> key list" where
  "listed_order ks S = filter (\<lambda>k. k \<in> S) ks"

fun example_encode :: "pyval \<Rightarrow> string option" where
  "example_encode (PyStr s) = Some (''<'' @ s @ ''>'')"
| "example_encode PyNone = Some ''null''"
| "example_encode (PyBool b) = Some (if b then ''true'' else ''false'')"
| "example_encode (PyInt i) =
     (if i = 0 then Some ''0'' else if i = 1 then Some ''1'' else if i = 2 then Some ''2''
      else if i = 3 then Some ''3'' else if i = 8 then Some ''8'' else None)"
| "example_encode (PyList xs) =
     (if list_all (\<lambda>x. example_encode x \<noteq> None) xs
      then Some (''['' @ concat (map (\<lambda>x. the (example_encode x) @ '','') xs) @ '']'')
      else None)"
| "example_encode (PyDict kvs) =
     (if list_all (\<lambda>(k, v). example_encode v \<noteq> None) kvs
      then Some (''{'' @ concat (map (\<lambda>(k, v). k @ '':'' @ the (example_encode v) @ '','') kvs) @ ''}'')
      else None)"
| "example_encode _ = None"

definition example_platform :: platform where
  "example_platform =
     \<lparr>set_order = listed_order [''t'', ''s'', ''r''],
      sha1_hexdigest = (\<lambda>bytes. ''sha1''),
      sha256_hexdigest = (\<lambda>data. data),
      json_encode = example_encode\<rparr>"

definition emit :: handler where
  "emit n inputs ctx = Returned (PyDict (parameters n))"

definition echo :: handler where
  "echo n inputs ctx = Returned (PyDict inputs)"

definition failing :: handler where
  "failing n inputs ctx = Raised ''failed''"

definition lower :: "string \<Rightarrow> string" where
  "lower s = map (\<lambda>c. case map_of (zip ''ABCDEFGHIJKLMNOPQRSTUVWXYZ''
                                         ''abcdefghijklmnopqrstuvwxyz'') c of
                         None \<Rightarrow> c | Some l \<Rightarrow> l) s"

definition example_registry :: registry where
  "example_registry ty =
     (let key = lower ty
      in if key = ''emit'' then Some emit else if key = ''echo'' then Some echo
         else if key = ''failing'' then Some failing else None)"

text \<open>The graph \<open>s.out \<rightarrow> t.in\<close>, where \<open>s\<close> emits \<open>{out: 1}\<close>.\<close>

definition example_graph :: graph where
  "example_graph = mutate_all (listed_order [''t'', ''s'', ''r'']) (Graph ''example'' [])
     [AddNode ((plain_node ''s'' ''emit'')\<lparr>parameters := [(''out'', PyInt 1)]\<rparr>),
      AddNode (plain_node ''t'' ''echo''),
      Connect ''s'' ''out'' ''t'' ''in'']"

definition memoization_off :: runtime_context where
  "memoization_off =
     \<lparr>configuration = Some \<lparr>performance = \<lparr>enable_multiprocessing = True,
                                              perf_enable_memoization = False,
                                              worker_concurrency = 0\<rparr>,
                              config_metadata = []\<rparr>,
      state = []\<rparr>"

section \<open>Graph mutations: the reverse index and the dirty set\<close>

lemmas graph_ops = Graph_def plain_node_def add_node_def connect_def disconnect_def
  iterate_def mark_dirty_def clear_dirty_def has_key_def inputs_for_def dependents_of_def
  dependencies_of_def remove_node_def remove_from_target_def drop_connection_def

text \<open>
  C5.  The claim: after every sequence of \<open>add_node\<close>, \<open>remove_node\<close>, \<open>connect\<close>,
  \<open>disconnect\<close> the dependents index is the exact transpose of the connections map.
  The code loses this in two ways.  \<open>disconnect\<close> discards the node from
  \<open>dependents[source]\<close> although another port of the node is still fed by the same
  source (first graph below: \<open>t.p2\<close> is still connected to \<open>a\<close>, and \<open>t\<close> is no longer a
  dependent of \<open>a\<close>).  \<open>connect\<close> overwrites the connection of an occupied port and
  leaves the node among the dependents of the old source (second graph: \<open>t\<close> is a
  dependent of \<open>a\<close>, and no connection of \<open>t\<close> comes from \<open>a\<close>).
\<close>

theorem dependents_not_transpose_after_mutations:
  "\<not> transpose_exact (mutate_all iter (Graph ''g'' [])
       [AddNode (plain_node ''a'' ''x''), AddNode (plain_node ''t'' ''x''),
        Connect ''a'' ''out'' ''t'' ''p1'', Connect ''a'' ''out'' ''t'' ''p2'',
        Disconnect ''t'' ''p1''])
   \<and> \<not> transpose_exact (mutate_all iter (Graph ''g'' [])
       [AddNode (plain_node ''a'' ''x''), AddNode (plain_node ''b'' ''x''),
        AddNode (plain_node ''t'' ''x''),
        Connect ''a'' ''out'' ''t'' ''p'', Connect ''b'' ''out'' ''t'' ''p''])"
proof -
  let ?g = "mutate_all iter (Graph ''g'' [])
       [AddNode (plain_node ''a'' ''x''), AddNode (plain_node ''t'' ''x''),
        Connect ''a'' ''out'' ''t'' ''p1'', Connect ''a'' ''out'' ''t'' ''p2'',
        Disconnect ''t'' ''p1'']"
  let ?h = "mutate_all iter (Graph ''g'' [])
       [AddNode (plain_node ''a'' ''x''), AddNode (plain_node ''b'' ''x''),
        AddNode (plain_node ''t'' ''x''),
        Connect ''a'' ''out'' ''t'' ''p'', Connect ''b'' ''out'' ''t'' ''p'']"
  have g: "''t'' \<notin> dependents_of ?g ''a''" "''a'' \<in> dependencies_of ?g ''t''"
    by (simp_all add: graph_ops)
  have h: "''t'' \<in> dependents_of ?h ''a''" "''a'' \<notin> dependencies_of ?h ''t''"
    by (simp_all add: graph_ops)
  from g h show ?thesis unfolding transpose_exact_def by blast
qed

text \<open>
  C8.  The claim: \<open>remove_node(key)\<close> leaves the removed key in the dirty set.  The code
  calls \<open>mark_dirty(node_key)\<close> as its last statement, after \<open>self.nodes.pop(node_key)\<close>,
  and \<open>mark_dirty\<close> does nothing for a key that is not a node.  On a graph whose only
  node \<open>a\<close> has been evaluated (its dirty flag cleared), removing \<open>a\<close> returns the empty
  graph with an empty dirty set.
\<close>

theorem remove_node_leaves_key_clean:
  "remove_node sorted_list_of_set
     (clear_dirty (mutate_all sorted_list_of_set (Graph ''g'' [])
        [AddNode (plain_node ''a'' ''x'')]) ''a'') ''a''
   = Inr (Graph ''g'' [])"
  by (simp add: graph_ops)


section \<open>The scheduler on the example installation\<close>

lemmas sorter_ops = static_order_def prepare_def sorter_done_def done_node_def
  done_successor_def get_ready_def sorter_add_def add_successor_def get_nodeinfo_def

lemmas runtime_ops = evaluate_def evaluate_node_def collect_inputs_def source_outputs_def
  use_cache_def record_outputs_def make_signature_def signature_payload_def dict_of_def
  cache_get_def cache_store_def is_valid_def enable_memoization_def RuntimeContext_def
  GraphScheduler_def ExecutionCache_def

lemma example_registry_simps:
  "example_registry ''emit'' = Some emit" "example_registry ''echo'' = Some echo"
  "example_registry ''Emit'' = Some emit" "example_registry ''failing'' = Some failing"
  "example_registry ''x'' = None"
  by (simp_all add: example_registry_def lower_def)

lemmas example_ops = example_platform_def example_registry_simps emit_def echo_def
  failing_def listed_order_def memoization_off_def

lemma example_graph_value:
  "example_graph =
     \<lparr>graph_name = ''example'', graph_metadata = [],
      nodes = [(''s'', \<lparr>node_key = ''s'', node_type = ''emit'', title = None,
                        parameters = [(''out'', PyInt 1)], node_metadata = []\<rparr>),
               (''t'', \<lparr>node_key = ''t'', node_type = ''echo'', title = None,
                        parameters = [], node_metadata = []\<rparr>)],
      connections = [(''t'', [(''in'', \<lparr>source_node = ''s'', source_port = ''out''\<rparr>)])],
      dependents = [(''s'', {''t''})],
      dirty = {''s'', ''t''}\<rparr>"
  by (simp add: example_graph_def graph_ops listed_order_def insert_commute)

lemma example_order:
  assumes "has_key (nodes g) ''t''" "connections g = connections example_graph"
  shows "topological_order (listed_order [''t'', ''s'', ''r'']) g (Some [''t'']) = Inr [''s'', ''t'']"
proof -
  have d: "dependencies_of g ''t'' = {''s''}" "dependencies_of g ''s'' = {}"
    using assms by (simp_all add: dependencies_of_def inputs_for_def example_graph_value)
  have ad: "add_dependencies (listed_order [''t'', ''s'', ''r'']) g [''t''] [] {}
      = ([(''t'', \<lparr>npredecessors = 1, successors = []\<rparr>),
          (''s'', \<lparr>npredecessors = 0, successors = [''t'']\<rparr>)], {''s'', ''t''})"
    by (simp add: d iterate_def listed_order_def sorter_add_def add_successor_def
        get_nodeinfo_def has_key_def insert_commute)
  have so: "static_order [(''t'', \<lparr>npredecessors = 1, successors = []\<rparr>),
          (''s'', \<lparr>npredecessors = 0, successors = [''t'']\<rparr>)] = Some [''s'', ''t'']"
    by (simp add: sorter_ops)
  have tn: "iterate (listed_order [''t'', ''s'', ''r'']) {''t''} = [''t'']"
    by (simp add: iterate_def listed_order_def)
  show ?thesis
    unfolding topological_order_def Let_def
    by (simp add: so tn ad assms del: add_dependencies.simps)
qed


definition example_cached :: scheduler where
  "example_cached =
     \<lparr>sched_graph = example_graph\<lparr>dirty := {}\<rparr>,
      sched_cache =
        \<lparr>cache_values = [(''s'', [(''out'', PyInt 1)]), (''t'', [(''in'', PyInt 1)])],
         cache_signatures =
           [(''s'', ''{inputs:{},node:<s>,parameters:{out:1,},type:<emit>,}''),
            (''t'', ''{inputs:{in:1,},node:<t>,parameters:{},type:<echo>,}'')]\<rparr>,
      invocations = [''s'', ''t''], progress_calls = []\<rparr>"

definition clear_parameters :: "key \<Rightarrow> scheduler \<Rightarrow> scheduler" where
  "clear_parameters k sch =
     sch\<lparr>sched_graph := mark_dirty
        ((sched_graph sch)\<lparr>nodes := AList.map_entry k (\<lambda>n. n\<lparr>parameters := []\<rparr>)
                                       (nodes (sched_graph sch))\<rparr>) k\<rparr>"


lemma example_changed_value:
  "clear_parameters ''s'' example_cached =
     \<lparr>sched_graph =
        \<lparr>graph_name = ''example'', graph_metadata = [],
         nodes = [(''s'', \<lparr>node_key = ''s'', node_type = ''emit'', title = None,
                           parameters = [], node_metadata = []\<rparr>),
                  (''t'', \<lparr>node_key = ''t'', node_type = ''echo'', title = None,
                           parameters = [], node_metadata = []\<rparr>)],
         connections = [(''t'', [(''in'', \<lparr>source_node = ''s'', source_port = ''out''\<rparr>)])],
         dependents = [(''s'', {''t''})],
         dirty = {''s'', ''t''}\<rparr>,
      sched_cache =
        \<lparr>cache_values = [(''s'', [(''out'', PyInt 1)]), (''t'', [(''in'', PyInt 1)])],
         cache_signatures =
           [(''s'', ''{inputs:{},node:<s>,parameters:{out:1,},type:<emit>,}''),
            (''t'', ''{inputs:{in:1,},node:<t>,parameters:{},type:<echo>,}'')]\<rparr>,
      invocations = [''s'', ''t''], progress_calls = []\<rparr>"
  by (simp add: clear_parameters_def example_cached_def example_graph_value mark_dirty_def
      has_key_def dependents_of_def insert_commute)

text \<open>
  C6.  The claim: a connected input is taken from the results already produced in the same
  pass, and from the cache only if the source has not yet been produced in this pass.
  The code computes \<open>current_outputs or cached_outputs\<close>, and an empty mapping is false
  in Python: when the source \<open>s\<close> has produced \<open>{}\<close> in this pass, the cached outputs
  of \<open>s\<close> are used.  Below, \<open>s\<close> was evaluated once with parameters \<open>{out: 1}\<close>
  (\<open>example_first_pass\<close>), its parameters were then emptied and it was marked dirty.
  With the results of the pass holding \<open>s \<mapsto> {}\<close>, \<open>_collect_inputs\<close> for \<open>t\<close> returns
  the stale \<open>in = 1\<close>; and \<open>evaluate\<close> with memoization disabled (so that the fresh
  \<open>{}\<close> of \<open>s\<close> is not stored) returns \<open>t\<close> computed from that stale input, where the
  claim has it fail with the missing-output-port error.
\<close>

theorem stale_input_from_cache:
  "collect_inputs (clear_parameters ''s'' example_cached) ''t'' [(''s'', [])]
     = Inr [(''in'', PyInt 1)]
   \<and> fst (evaluate example_platform example_registry (Some [''t'']) (Some memoization_off)
          False False (clear_parameters ''s'' example_cached))
     = Inr [(''t'', [(''in'', PyInt 1)])]"
proof -
  let ?sch = "clear_parameters ''s'' example_cached"
  have o: "topological_order (listed_order [''t'', ''s'', ''r'']) (sched_graph ?sch) (Some [''t''])
      = Inr [''s'', ''t'']"
    by (rule example_order) (simp_all add: example_changed_value example_graph_value has_key_def)
  have c: "collect_inputs ?sch ''t'' [(''s'', [])] = Inr [(''in'', PyInt 1)]"
    unfolding example_changed_value
    by (simp add: collect_inputs_def inputs_for_def source_outputs_def cache_get_def)
  have e: "fst (evaluate example_platform example_registry (Some [''t'']) (Some memoization_off)
          False False ?sch) = Inr [(''t'', [(''in'', PyInt 1)])]"
    unfolding evaluate_def Let_def
    apply (simp add: o example_platform_def)
    unfolding example_changed_value
    apply (simp add: runtime_ops example_ops has_key_def inputs_for_def
          clear_dirty_def insert_Diff_if)
    done
  from c e show ?thesis by simp
qed



section \<open>Memoization without a configuration\<close>





section \<open>Signatures\<close>


lemma dict_of_distinct: "distinct (map fst kvs) \<Longrightarrow> dict_of kvs = kvs"
proof -
  have "distinct (map fst (acc @ kvs)) \<Longrightarrow> fold (\<lambda>(k, v). AList.update k v) kvs acc = acc @ kvs" for acc
  proof (induction kvs arbitrary: acc)
    case Nil then show ?case by simp
  next
    case (Cons kv kvs)
    obtain k v where kv: "kv = (k, v)" by (cases kv)
    have "k \<notin> fst ` set acc" using Cons.prems kv by auto
    then have u: "AList.update k v acc = acc @ [(k, v)]"
      by (induction acc) auto
    show ?case using Cons.IH[of "acc @ [(k, v)]"] Cons.prems kv u by simp
  qed
  from this[of "[]"] show "distinct (map fst kvs) \<Longrightarrow> dict_of kvs = kvs"
    by (simp add: dict_of_def)
qed












section \<open>Correctness of the topological order\<close>

subsection \<open>The sorter as two functions\<close>

definition waiting :: "node2info \<Rightarrow> key \<Rightarrow> int" where
  "waiting s k = (case map_of s k of None \<Rightarrow> 0 | Some i \<Rightarrow> npredecessors i)"

definition succs :: "node2info \<Rightarrow> key \<Rightarrow> key list" where
  "succs s k = (case map_of s k of None \<Rightarrow> [] | Some i \<Rightarrow> successors i)"

lemma has_key_map_of: "has_key s k \<longleftrightarrow> map_of s k \<noteq> None"
  by (simp add: has_key_def map_of_eq_None_iff)

lemma get_nodeinfo_keys: "fst ` set (get_nodeinfo s n) = insert n (fst ` set s)"
  by (auto simp: get_nodeinfo_def has_key_def)

lemma get_nodeinfo_distinct:
  "distinct (map fst s) \<Longrightarrow> distinct (map fst (get_nodeinfo s n))"
  by (auto simp: get_nodeinfo_def has_key_def)

lemma get_nodeinfo_waiting: "waiting (get_nodeinfo s n) k = waiting s k"
  by (auto simp: get_nodeinfo_def waiting_def has_key_map_of map_add_def split: option.splits)

lemma get_nodeinfo_succs: "succs (get_nodeinfo s n) k = succs s k"
  by (auto simp: get_nodeinfo_def succs_def has_key_map_of map_add_def split: option.splits)

lemma add_successor_keys: "fst ` set (add_successor n p s) = insert p (fst ` set s)"
  by (simp add: add_successor_def dom_map_entry get_nodeinfo_keys)

lemma add_successor_distinct:
  "distinct (map fst s) \<Longrightarrow> distinct (map fst (add_successor n p s))"
  by (simp add: add_successor_def distinct_map_entry get_nodeinfo_distinct)

lemma add_successor_waiting: "waiting (add_successor n p s) k = waiting s k"
proof -
  have "waiting (add_successor n p s) k = waiting (get_nodeinfo s p) k"
    by (auto simp: add_successor_def waiting_def map_of_map_entry split: option.splits)
  then show ?thesis by (simp add: get_nodeinfo_waiting)
qed

lemma add_successor_succs:
  "succs (add_successor n p s) k = (if k = p then succs s p @ [n] else succs s k)"
proof -
  have p: "map_of (get_nodeinfo s p) p \<noteq> None"
    using get_nodeinfo_keys[of s p] by (simp add: map_of_eq_None_iff)
  have "succs (add_successor n p s) k
      = (if k = p then succs (get_nodeinfo s p) p @ [n] else succs (get_nodeinfo s p) k)"
    using p by (auto simp: add_successor_def succs_def map_of_map_entry split: option.splits)
  then show ?thesis by (simp add: get_nodeinfo_succs)
qed

lemma fold_add_successor:
  "distinct ps \<Longrightarrow>
   fst ` set (fold (add_successor n) ps s) = set ps \<union> fst ` set s
   \<and> (distinct (map fst s) \<longrightarrow> distinct (map fst (fold (add_successor n) ps s)))
   \<and> (\<forall>k. waiting (fold (add_successor n) ps s) k = waiting s k)
   \<and> (\<forall>k. succs (fold (add_successor n) ps s) k
          = (if k \<in> set ps then succs s k @ [n] else succs s k))"
proof (induction ps arbitrary: s)
  case Nil
  show ?case by simp
next
  case (Cons p ps)
  then have d: "distinct ps" and pn: "p \<notin> set ps" by simp_all
  note ih = Cons.IH[OF d, of "add_successor n p s"]
  show ?case
    using ih pn
    by (auto simp: add_successor_keys add_successor_distinct add_successor_waiting
        add_successor_succs)
qed

lemma sorter_add_props:
  assumes "distinct ps"
  shows "fst ` set (sorter_add s n ps) = insert n (set ps \<union> fst ` set s)"
    and "distinct (map fst s) \<Longrightarrow> distinct (map fst (sorter_add s n ps))"
    and "waiting (sorter_add s n ps) k
          = (if k = n then waiting s n + int (length ps) else waiting s k)"
    and "succs (sorter_add s n ps) k = (if k \<in> set ps then succs s k @ [n] else succs s k)"
proof -
  let ?s1 = "AList.map_entry n (\<lambda>i. i\<lparr>npredecessors := npredecessors i + int (length ps)\<rparr>)
               (get_nodeinfo s n)"
  have n: "map_of (get_nodeinfo s n) n \<noteq> None"
    using get_nodeinfo_keys[of s n] by (simp add: map_of_eq_None_iff)
  have k1: "fst ` set ?s1 = insert n (fst ` set s)"
    by (simp add: dom_map_entry get_nodeinfo_keys)
  have d1: "distinct (map fst s) \<Longrightarrow> distinct (map fst ?s1)"
    by (simp add: distinct_map_entry get_nodeinfo_distinct)
  have w1: "waiting ?s1 k = (if k = n then waiting s n + int (length ps) else waiting s k)" for k
  proof -
    have "waiting ?s1 k = (if k = n then waiting (get_nodeinfo s n) n + int (length ps)
                           else waiting (get_nodeinfo s n) k)"
      using n by (auto simp: waiting_def map_of_map_entry split: option.splits)
    then show ?thesis by (simp add: get_nodeinfo_waiting)
  qed
  have s1: "succs ?s1 k = succs s k" for k
  proof -
    have "succs ?s1 k = succs (get_nodeinfo s n) k"
      by (auto simp: succs_def map_of_map_entry split: option.splits)
    then show ?thesis by (simp add: get_nodeinfo_succs)
  qed
  note f = fold_add_successor[OF assms, of n ?s1]
  show "fst ` set (sorter_add s n ps) = insert n (set ps \<union> fst ` set s)"
    using f k1 by (auto simp: sorter_add_def)
  show "distinct (map fst s) \<Longrightarrow> distinct (map fst (sorter_add s n ps))"
    using f d1 by (simp add: sorter_add_def)
  show "waiting (sorter_add s n ps) k
          = (if k = n then waiting s n + int (length ps) else waiting s k)"
    using f w1 by (simp add: sorter_add_def)
  show "succs (sorter_add s n ps) k = (if k \<in> set ps then succs s k @ [n] else succs s k)"
    using f s1 by (simp add: sorter_add_def)
qed


subsection \<open>The sorter built by the traversal\<close>

definition dep_rel :: "graph \<Rightarrow> (key \<times> key) set" where
  "dep_rel g = {(s, t). s \<in> dependencies_of g t}"

definition closure :: "graph \<Rightarrow> key set \<Rightarrow> key set" where
  "closure g T = {k. \<exists>t\<in>T. (k, t) \<in> (dep_rel g)\<^sup>*}"

definition built :: "graph \<Rightarrow> key set \<Rightarrow> node2info \<Rightarrow> bool" where
  "built g V s \<longleftrightarrow>
     distinct (map fst s)
     \<and> fst ` set s = V \<union> (\<Union>k\<in>V. dependencies_of g k)
     \<and> (\<forall>k. waiting s k = (if k \<in> V then int (card (dependencies_of g k)) else 0))
     \<and> (\<forall>k. distinct (succs s k) \<and> set (succs s k) = {t \<in> V. k \<in> dependencies_of g t})"

lemma finite_dependencies_of: "finite (dependencies_of g k)"
  by (simp add: dependencies_of_def)

lemma iterate_finite: "finite S \<Longrightarrow> set (iterate iter S) = S \<and> distinct (iterate iter S)"
  by (simp add: iterate_def)

lemma built_empty: "built g {} []"
  by (simp add: built_def waiting_def succs_def)

lemma built_visit:
  assumes b: "built g V s" and k: "k \<notin> V"
  shows "built g (insert k V) (sorter_add s k (iterate iter (dependencies_of g k)))"
proof -
  let ?ps = "iterate iter (dependencies_of g k)"
  have ps: "set ?ps = dependencies_of g k" "distinct ?ps"
    using iterate_finite[OF finite_dependencies_of] by simp_all
  note sa = sorter_add_props[OF ps(2), of s k]
  have len: "length ?ps = card (dependencies_of g k)"
    using ps distinct_card by fastforce
  have 1: "distinct (map fst (sorter_add s k ?ps))"
    using b sa(2) by (simp add: built_def)
  have 2: "fst ` set (sorter_add s k ?ps)
      = insert k V \<union> (\<Union>x\<in>insert k V. dependencies_of g x)"
    using b by (auto simp: sa(1) ps built_def)
  have 3: "waiting (sorter_add s k ?ps) x
      = (if x \<in> insert k V then int (card (dependencies_of g x)) else 0)" for x
    using b k by (simp add: sa(3) len built_def)
  have 4: "distinct (succs (sorter_add s k ?ps) x)
      \<and> set (succs (sorter_add s k ?ps) x) = {t \<in> insert k V. x \<in> dependencies_of g t}" for x
    using b k by (auto simp: sa(4) ps built_def)
  from 1 2 3 4 show ?thesis unfolding built_def by blast
qed

lemma closure_deps: "t \<in> closure g T \<Longrightarrow> dependencies_of g t \<subseteq> closure g T"
  unfolding closure_def dep_rel_def
  by (auto intro: converse_rtrancl_into_rtrancl)

lemma closure_base: "T \<subseteq> closure g T"
  by (auto simp: closure_def)

lemma closure_least:
  assumes "T \<subseteq> V" and "\<And>t. t \<in> V \<Longrightarrow> dependencies_of g t \<subseteq> V"
  shows "closure g T \<subseteq> V"
proof
  fix k assume "k \<in> closure g T"
  then obtain t where t: "t \<in> T" "(k, t) \<in> (dep_rel g)\<^sup>*" by (auto simp: closure_def)
  from t(2) have "t \<in> V \<longrightarrow> k \<in> V"
  proof (induction rule: converse_rtrancl_induct)
    case base show ?case by simp
  next
    case (step y z)
    then show ?case using assms(2) by (auto simp: dep_rel_def)
  qed
  with t(1) assms(1) show "k \<in> V" by auto
qed

lemma add_dependencies_built:
  assumes "built g V s"
      and "(\<Union>k\<in>V. dependencies_of g k) \<subseteq> V \<union> set pending"
      and "V \<union> set pending \<subseteq> closure g T"
  shows "built g (snd (add_dependencies iter g pending s V))
                 (fst (add_dependencies iter g pending s V))
       \<and> (\<Union>k\<in>snd (add_dependencies iter g pending s V). dependencies_of g k)
            \<subseteq> snd (add_dependencies iter g pending s V)
       \<and> V \<union> set pending \<subseteq> snd (add_dependencies iter g pending s V)
       \<and> snd (add_dependencies iter g pending s V) \<subseteq> closure g T"
  using assms
proof (induction iter g pending s V rule: add_dependencies.induct)
  case (1 iter g sorter visited)
  then show ?case by simp
next
  case (2 iter g k pending sorter visited)
  show ?case
  proof (cases "k \<in> visited")
    case True
    have "(\<Union>k\<in>visited. dependencies_of g k) \<subseteq> visited \<union> set pending"
      using "2.prems"(2) True by auto
    moreover have "visited \<union> set pending \<subseteq> closure g T" using "2.prems"(3) by auto
    ultimately show ?thesis
      using "2.IH"(1)[OF True "2.prems"(1)] True by auto
  next
    case False
    let ?deps = "iterate iter (dependencies_of g k)"
    have ds: "set ?deps = dependencies_of g k"
      using iterate_finite[OF finite_dependencies_of] by simp
    have b: "built g (insert k visited) (sorter_add sorter k ?deps)"
      using "2.prems"(1) False by (rule built_visit)
    have p: "(\<Union>x\<in>insert k visited. dependencies_of g x)
        \<subseteq> insert k visited \<union> set (?deps @ pending)"
      using "2.prems"(2) ds by auto
    have kc: "k \<in> closure g T" using "2.prems"(3) by auto
    have c: "insert k visited \<union> set (?deps @ pending) \<subseteq> closure g T"
      using "2.prems"(3) ds closure_deps[OF kc] by auto
    show ?thesis
      using "2.IH"(2)[OF False refl b p c] False by (auto simp: Let_def)
  qed
qed

lemma add_dependencies_closure:
  assumes "set targets = T"
  shows "built g (closure g T) (fst (add_dependencies iter g targets [] {}))"
    and "snd (add_dependencies iter g targets [] {}) = closure g T"
proof -
  let ?r = "add_dependencies iter g targets [] {}"
  have "built g (snd ?r) (fst ?r) \<and> (\<Union>k\<in>snd ?r. dependencies_of g k) \<subseteq> snd ?r
       \<and> {} \<union> set targets \<subseteq> snd ?r \<and> snd ?r \<subseteq> closure g T"
    using assms by (intro add_dependencies_built built_empty) (auto simp: closure_base)
  moreover from this have "closure g T \<subseteq> snd ?r"
    using assms by (intro closure_least) auto
  ultimately show "built g (closure g T) (fst ?r)" "snd ?r = closure g T" by auto
qed

subsection \<open>One round of static_order\<close>

lemma waiting_update:
  "waiting (AList.update t i s) k = (if k = t then npredecessors i else waiting s k)"
  by (simp add: waiting_def update_conv')

lemma succs_update:
  "map_of s t = Some j \<Longrightarrow> successors i = successors j \<Longrightarrow>
   succs (AList.update t i s) k = succs s k"
  by (simp add: succs_def update_conv')

lemma keys_update:
  "map_of s t = Some j \<Longrightarrow> map fst (AList.update t i s) = map fst s"
  by (auto simp: update_keys dest: map_of_SomeD intro: rev_image_eqI)

lemma get_ready_props:
  "map fst (get_ready s R) = map fst s
   \<and> (\<forall>k. succs (get_ready s R) k = succs s k)
   \<and> (\<forall>k. k \<notin> set R \<longrightarrow> waiting (get_ready s R) k = waiting s k)"
  unfolding get_ready_def
proof (induction R arbitrary: s)
  case Nil show ?case by simp
next
  case (Cons r R)
  let ?s1 = "AList.map_entry r (\<lambda>i. i\<lparr>npredecessors := - 1\<rparr>) s"
  have k: "map fst ?s1 = map fst s" by (induction s) auto
  have sc: "succs ?s1 x = succs s x" for x
    by (auto simp: succs_def map_of_map_entry split: option.splits)
  have w: "x \<noteq> r \<Longrightarrow> waiting ?s1 x = waiting s x" for x
    by (auto simp: waiting_def map_of_map_entry split: option.splits)
  show ?case using Cons[of ?s1] k sc w by simp
qed

lemma done_successor_props:
  assumes "has_key s t"
  shows "map fst (fst (done_successor t (s, rd))) = map fst s"
    and "succs (fst (done_successor t (s, rd))) k = succs s k"
    and "waiting (fst (done_successor t (s, rd))) k
          = (if k = t then waiting s t - 1 else waiting s k)"
    and "snd (done_successor t (s, rd)) = (if waiting s t = 1 then rd @ [t] else rd)"
proof -
  from assms obtain i where i: "map_of s t = Some i"
    by (auto simp: has_key_map_of)
  show "map fst (fst (done_successor t (s, rd))) = map fst s"
    using i by (simp add: done_successor_def keys_update)
  show "succs (fst (done_successor t (s, rd))) k = succs s k"
    using i by (simp add: done_successor_def succs_update)
  show "waiting (fst (done_successor t (s, rd))) k
          = (if k = t then waiting s t - 1 else waiting s k)"
    using i by (simp add: done_successor_def waiting_update) (simp add: waiting_def)
  show "snd (done_successor t (s, rd)) = (if waiting s t = 1 then rd @ [t] else rd)"
    using i by (auto simp: done_successor_def waiting_def)
qed

lemma fold_done_successor:
  assumes "set ts \<subseteq> fst ` set s"
  shows "map fst (fst (fold done_successor ts (s, rd))) = map fst s
     \<and> (\<forall>k. succs (fst (fold done_successor ts (s, rd))) k = succs s k)
     \<and> (\<forall>k. waiting (fst (fold done_successor ts (s, rd))) k
             = waiting s k - int (count_list ts k))
     \<and> (\<exists>nw. snd (fold done_successor ts (s, rd)) = rd @ nw \<and> distinct nw
             \<and> set nw = {k. 0 < waiting s k \<and> waiting s k \<le> int (count_list ts k)})"
  using assms
proof (induction ts arbitrary: s rd)
  case Nil
  show ?case by auto
next
  case (Cons t ts)
  obtain s1 rd1 where st: "done_successor t (s, rd) = (s1, rd1)" by (cases "done_successor t (s, rd)")
  have hk: "has_key s t" using Cons.prems by (simp add: has_key_def)
  note p = done_successor_props[OF hk, of rd]
  have k1: "map fst s1 = map fst s" using p(1) st by simp
  have sc1: "succs s1 k = succs s k" for k using p(2)[of k] st by simp
  have w1: "waiting s1 k = (if k = t then waiting s t - 1 else waiting s k)" for k
    using p(3)[of k] st by simp
  have r1: "rd1 = (if waiting s t = 1 then rd @ [t] else rd)" using p(4) st by simp
  have sub: "set ts \<subseteq> fst ` set s1"
    using Cons.prems k1 by (metis set_map set_subset_Cons subset_trans)
  from Cons.IH[OF sub, of rd1] obtain nw where
    ih: "map fst (fst (fold done_successor ts (s1, rd1))) = map fst s1"
        "\<forall>k. succs (fst (fold done_successor ts (s1, rd1))) k = succs s1 k"
        "\<forall>k. waiting (fst (fold done_successor ts (s1, rd1))) k = waiting s1 k - int (count_list ts k)"
        "snd (fold done_successor ts (s1, rd1)) = rd1 @ nw" "distinct nw"
        "set nw = {k. 0 < waiting s1 k \<and> waiting s1 k \<le> int (count_list ts k)}"
    by blast
  have f: "fold done_successor (t # ts) (s, rd) = fold done_successor ts (s1, rd1)"
    using st by simp
  have A: "map fst (fst (fold done_successor (t # ts) (s, rd))) = map fst s"
    using f ih(1) k1 by simp
  have B: "\<forall>k. succs (fst (fold done_successor (t # ts) (s, rd))) k = succs s k"
    using f ih(2) sc1 by simp
  have C: "\<forall>k. waiting (fst (fold done_successor (t # ts) (s, rd))) k
             = waiting s k - int (count_list (t # ts) k)"
    using f ih(3) w1 by auto
  have D: "\<exists>nw'. snd (fold done_successor (t # ts) (s, rd)) = rd @ nw' \<and> distinct nw'
             \<and> set nw' = {k. 0 < waiting s k \<and> waiting s k \<le> int (count_list (t # ts) k)}"
  proof (cases "waiting s t = 1")
    case True
    have tn: "t \<notin> set nw" using ih(6) w1[of t] True by simp
    have "set (t # nw) = {k. 0 < waiting s k \<and> waiting s k \<le> int (count_list (t # ts) k)}"
      using ih(6) w1 True by auto
    moreover have "snd (fold done_successor (t # ts) (s, rd)) = rd @ (t # nw)"
      using f ih(4) r1 True by simp
    ultimately show ?thesis using tn ih(5) by (intro exI[of _ "t # nw"]) simp
  next
    case False
    have "set nw = {k. 0 < waiting s k \<and> waiting s k \<le> int (count_list (t # ts) k)}"
      using ih(6) w1 False by auto
    moreover have "snd (fold done_successor (t # ts) (s, rd)) = rd @ nw"
      using f ih(4) r1 False by simp
    ultimately show ?thesis using ih(5) by blast
  qed
  from A B C D show ?case by blast
qed


lemma done_node_props:
  assumes n: "has_key s n" and sub: "set (succs s n) \<subseteq> fst ` set s"
      and self: "n \<notin> set (succs s n)"
  shows "map fst (fst (done_node n (s, rd))) = map fst s
     \<and> (\<forall>k. succs (fst (done_node n (s, rd))) k = succs s k)
     \<and> (\<forall>k. k \<noteq> n \<longrightarrow> waiting (fst (done_node n (s, rd))) k
             = waiting s k - int (count_list (succs s n) k))
     \<and> (\<exists>nw. snd (done_node n (s, rd)) = rd @ nw \<and> distinct nw
             \<and> set nw = {k. k \<noteq> n \<and> 0 < waiting s k
                            \<and> waiting s k \<le> int (count_list (succs s n) k)})"
proof -
  from n obtain i where i: "map_of s n = Some i" by (auto simp: has_key_map_of)
  let ?m = "AList.update n (i\<lparr>npredecessors := - 2\<rparr>) s"
  have km: "map fst ?m = map fst s" using i by (rule keys_update)
  have sm: "succs ?m k = succs s k" for k using i by (simp add: succs_update)
  have wm: "waiting ?m k = (if k = n then - 2 else waiting s k)" for k
    by (simp add: waiting_update)
  have si: "successors i = succs s n" using i by (simp add: succs_def)
  have d: "done_node n (s, rd) = fold done_successor (succs s n) (?m, rd)"
    using i si by (simp add: done_node_def)
  have sub': "set (succs s n) \<subseteq> fst ` set ?m"
    using sub km by (metis set_map)
  from fold_done_successor[OF sub', of rd] obtain nw where
    f: "map fst (fst (fold done_successor (succs s n) (?m, rd))) = map fst ?m"
       "\<forall>k. succs (fst (fold done_successor (succs s n) (?m, rd))) k = succs ?m k"
       "\<forall>k. waiting (fst (fold done_successor (succs s n) (?m, rd))) k
            = waiting ?m k - int (count_list (succs s n) k)"
       "snd (fold done_successor (succs s n) (?m, rd)) = rd @ nw" "distinct nw"
       "set nw = {k. 0 < waiting ?m k \<and> waiting ?m k \<le> int (count_list (succs s n) k)}"
    by blast
  have "set nw = {k. k \<noteq> n \<and> 0 < waiting s k \<and> waiting s k \<le> int (count_list (succs s n) k)}"
    using f(6) wm by auto
  then show ?thesis using d f km sm wm by auto
qed

lemma fold_done_node:
  assumes "distinct R" and "set R \<subseteq> fst ` set s"
      and "\<forall>r\<in>set R. set (succs s r) \<subseteq> fst ` set s - set R"
  shows "map fst (fst (fold done_node R (s, rd))) = map fst s
     \<and> (\<forall>k. succs (fst (fold done_node R (s, rd))) k = succs s k)
     \<and> (\<forall>k. k \<notin> set R \<longrightarrow> waiting (fst (fold done_node R (s, rd))) k
             = waiting s k - int (count_list (concat (map (succs s) R)) k))
     \<and> (\<exists>nw. snd (fold done_node R (s, rd)) = rd @ nw \<and> distinct nw
             \<and> set nw = {k. k \<notin> set R \<and> 0 < waiting s k
                            \<and> waiting s k \<le> int (count_list (concat (map (succs s) R)) k)})"
  using assms
proof (induction R arbitrary: s rd)
  case Nil
  show ?case by auto
next
  case (Cons r R)
  obtain s1 rd1 where st: "done_node r (s, rd) = (s1, rd1)" by (cases "done_node r (s, rd)")
  have hk: "has_key s r" using Cons.prems(2) by (simp add: has_key_def)
  have sub: "set (succs s r) \<subseteq> fst ` set s" and self: "r \<notin> set (succs s r)"
    using Cons.prems(3) by auto
  from done_node_props[OF hk sub self, of rd] st obtain nw1 where
    p: "map fst s1 = map fst s" "\<forall>k. succs s1 k = succs s k"
       "\<forall>k. k \<noteq> r \<longrightarrow> waiting s1 k = waiting s k - int (count_list (succs s r) k)"
       "rd1 = rd @ nw1" "distinct nw1"
       "set nw1 = {k. k \<noteq> r \<and> 0 < waiting s k \<and> waiting s k \<le> int (count_list (succs s r) k)}"
    by auto
  have keys1: "fst ` set s1 = fst ` set s" using p(1) by (metis set_map)
  have a1: "distinct R" using Cons.prems(1) by simp
  have a2: "set R \<subseteq> fst ` set s1" using Cons.prems(2) keys1 by simp
  have a3: "\<forall>x\<in>set R. set (succs s1 x) \<subseteq> fst ` set s1 - set R"
    using Cons.prems(3) keys1 p(2) by auto
  from Cons.IH[OF a1 a2 a3, of rd1] obtain nw2 where
    ih: "map fst (fst (fold done_node R (s1, rd1))) = map fst s1"
        "\<forall>k. succs (fst (fold done_node R (s1, rd1))) k = succs s1 k"
        "\<forall>k. k \<notin> set R \<longrightarrow> waiting (fst (fold done_node R (s1, rd1))) k
             = waiting s1 k - int (count_list (concat (map (succs s1) R)) k)"
        "snd (fold done_node R (s1, rd1)) = rd1 @ nw2" "distinct nw2"
        "set nw2 = {k. k \<notin> set R \<and> 0 < waiting s1 k
                     \<and> waiting s1 k \<le> int (count_list (concat (map (succs s1) R)) k)}"
    by blast
  have same: "map (succs s1) R = map (succs s) R" using p(2) by simp
  have f: "fold done_node (r # R) (s, rd) = fold done_node R (s1, rd1)" using st by simp
  let ?c1 = "\<lambda>k. int (count_list (succs s r) k)"
  let ?c2 = "\<lambda>k. int (count_list (concat (map (succs s) R)) k)"
  have cnt: "int (count_list (concat (map (succs s) (r # R))) k) = ?c1 k + ?c2 k" for k by simp
  have A: "map fst (fst (fold done_node (r # R) (s, rd))) = map fst s"
    using f ih(1) p(1) by simp
  have B: "\<forall>k. succs (fst (fold done_node (r # R) (s, rd))) k = succs s k"
    using f ih(2) p(2) by simp
  have C: "\<forall>k. k \<notin> set (r # R) \<longrightarrow> waiting (fst (fold done_node (r # R) (s, rd))) k
             = waiting s k - int (count_list (concat (map (succs s) (r # R))) k)"
    using f ih(3) p(3) same by (simp del: fold_simps)
  have rn: "r \<notin> set nw2"
  proof
    assume "r \<in> set nw2"
    then have "0 < waiting s1 r" using ih(6) by simp
    moreover have "waiting s1 r = - 2"
    proof -
      from hk obtain i where i: "map_of s r = Some i" by (auto simp: has_key_map_of)
      have "waiting (fst (done_node r (s, rd))) r = - 2"
      proof -
        let ?m = "AList.update r (i\<lparr>npredecessors := - 2\<rparr>) s"
        have km: "map fst ?m = map fst s" using i by (rule keys_update)
        have "set (succs s r) \<subseteq> fst ` set ?m" using sub km by (metis set_map)
        from fold_done_successor[OF this, of rd]
        have "waiting (fst (fold done_successor (succs s r) (?m, rd))) r
            = waiting ?m r - int (count_list (succs s r) r)" by blast
        moreover have "done_node r (s, rd) = fold done_successor (succs s r) (?m, rd)"
          using i by (simp add: done_node_def succs_def)
        ultimately show ?thesis using self by (simp add: waiting_update)
      qed
      then show ?thesis using st by simp
    qed
    ultimately show False by simp
  qed
  have disj: "set nw1 \<inter> set nw2 = {}"
  proof -
    have "k \<notin> set nw1" if "k \<in> set nw2" for k
    proof -
      from that rn have kr: "k \<noteq> r" by auto
      from that have "0 < waiting s1 k" using ih(6) by simp
      then have "?c1 k < waiting s k" using p(3) kr by simp
      then show ?thesis using p(6) by simp
    qed
    then show ?thesis by auto
  qed
  have setn: "set (nw1 @ nw2) = {k. k \<notin> set (r # R) \<and> 0 < waiting s k
        \<and> waiting s k \<le> int (count_list (concat (map (succs s) (r # R))) k)}"
  proof (intro set_eqI iffI)
    fix k assume "k \<in> set (nw1 @ nw2)"
    then consider "k \<in> set nw1" | "k \<in> set nw2" by auto
    then show "k \<in> {k. k \<notin> set (r # R) \<and> 0 < waiting s k
        \<and> waiting s k \<le> int (count_list (concat (map (succs s) (r # R))) k)}"
    proof cases
      case 1
      then have k: "k \<noteq> r" "0 < waiting s k" "waiting s k \<le> ?c1 k" using p(6) by auto
      then have "k \<in> set (succs s r)" by (metis count_notin int_ops(1) not_less)
      then have "k \<notin> set R" using Cons.prems(3) by auto
      then show ?thesis using k unfolding cnt by simp
    next
      case 2
      then have k: "k \<notin> set R" "0 < waiting s1 k" "waiting s1 k \<le> ?c2 k"
        using ih(6) same by auto
      moreover have kr: "k \<noteq> r" using 2 rn by auto
      ultimately show ?thesis using p(3) unfolding cnt by simp
    qed
  next
    fix k assume "k \<in> {k. k \<notin> set (r # R) \<and> 0 < waiting s k
        \<and> waiting s k \<le> int (count_list (concat (map (succs s) (r # R))) k)}"
    then have k: "k \<noteq> r" "k \<notin> set R" "0 < waiting s k" "waiting s k \<le> ?c1 k + ?c2 k"
      unfolding cnt by auto
    show "k \<in> set (nw1 @ nw2)"
    proof (cases "waiting s k \<le> ?c1 k")
      case True
      then show ?thesis using k p(6) by simp
    next
      case False
      then have "0 < waiting s1 k" "waiting s1 k \<le> ?c2 k" using k p(3) by auto
      then show ?thesis using k ih(6) same by simp
    qed
  qed
  have D: "\<exists>nw. snd (fold done_node (r # R) (s, rd)) = rd @ nw \<and> distinct nw
             \<and> set nw = {k. k \<notin> set (r # R) \<and> 0 < waiting s k
                            \<and> waiting s k \<le> int (count_list (concat (map (succs s) (r # R))) k)}"
    using f ih(4,5) p(4,5) disj setn by (intro exI[of _ "nw1 @ nw2"]) simp
  from A B C D show ?case by blast
qed

lemma count_list_distinct:
  "distinct xs \<Longrightarrow> count_list xs k = (if k \<in> set xs then 1 else 0)"
  by (induction xs) auto

lemma count_concat_card:
  assumes "distinct R" and "\<And>r. distinct (SC r)"
  shows "count_list (concat (map SC R)) k = card {r \<in> set R. k \<in> set (SC r)}"
  using assms(1)
proof (induction R)
  case Nil
  show ?case by simp
next
  case (Cons r R)
  have c1: "count_list (SC r) k = (if k \<in> set (SC r) then 1 else 0)"
    using assms(2)[of r] by (rule count_list_distinct)
  have fin: "finite {x \<in> set R. k \<in> set (SC x)}" by simp
  have rn: "r \<notin> {x \<in> set R. k \<in> set (SC x)}" using Cons.prems by simp
  have split: "{x \<in> set (r # R). k \<in> set (SC x)}
      = (if k \<in> set (SC r) then insert r {x \<in> set R. k \<in> set (SC x)}
         else {x \<in> set R. k \<in> set (SC x)})"
    by auto
  have "card {x \<in> set (r # R). k \<in> set (SC x)}
      = (if k \<in> set (SC r) then Suc (card {x \<in> set R. k \<in> set (SC x)})
         else card {x \<in> set R. k \<in> set (SC x)})"
    unfolding split using card_insert_disjoint[OF fin rn] by simp
  moreover have "count_list (concat (map SC (r # R))) k
      = count_list (SC r) k + card {x \<in> set R. k \<in> set (SC x)}"
    using Cons by simp
  ultimately show ?case using c1 by simp
qed

definition ordered :: "graph \<Rightarrow> key list \<Rightarrow> bool" where
  "ordered g out \<longleftrightarrow> (\<forall>i<length out. dependencies_of g (out ! i) \<subseteq> set (take i out))"

definition kahn_inv :: "graph \<Rightarrow> key set \<Rightarrow> node2info \<Rightarrow> key list \<Rightarrow> key list \<Rightarrow> bool" where
  "kahn_inv g C s ready out \<longleftrightarrow>
     distinct (map fst s) \<and> fst ` set s = C
     \<and> (\<forall>k. distinct (succs s k) \<and> set (succs s k) = {t \<in> C. k \<in> dependencies_of g t})
     \<and> (\<forall>k\<in>C. dependencies_of g k \<subseteq> C)
     \<and> distinct (out @ ready) \<and> set (out @ ready) \<subseteq> C
     \<and> (\<forall>k\<in>set ready. dependencies_of g k \<subseteq> set out)
     \<and> (\<forall>k\<in>C - set out - set ready.
           waiting s k = int (card (dependencies_of g k - set out))
           \<and> \<not> dependencies_of g k \<subseteq> set out)
     \<and> ordered g out"

lemma ordered_append:
  assumes "ordered g out" and "\<forall>k\<in>set R. dependencies_of g k \<subseteq> set out"
  shows "ordered g (out @ R)"
  unfolding ordered_def
proof (intro allI impI)
  fix i assume i: "i < length (out @ R)"
  show "dependencies_of g ((out @ R) ! i) \<subseteq> set (take i (out @ R))"
  proof (cases "i < length out")
    case True
    then show ?thesis using assms(1) by (simp add: ordered_def nth_append)
  next
    case False
    then have "(out @ R) ! i \<in> set R" using i by (simp add: nth_append)
    then have "dependencies_of g ((out @ R) ! i) \<subseteq> set out" using assms(2) by blast
    moreover have "set out \<subseteq> set (take i (out @ R))" using False by simp
    ultimately show ?thesis by blast
  qed
qed

lemma ordered_in_out:
  assumes "ordered g out" "k \<in> set out"
  shows "dependencies_of g k \<subseteq> set out"
proof -
  from assms(2) obtain i where "i < length out" "out ! i = k" by (auto simp: in_set_conv_nth)
  then have "dependencies_of g k \<subseteq> set (take i out)" using assms(1) by (auto simp: ordered_def)
  then show ?thesis using set_take_subset by fast
qed

lemma kahn_round:
  assumes inv: "kahn_inv g C s R out"
  shows "kahn_inv g C (fst (sorter_done (get_ready s R) R)) (snd (sorter_done (get_ready s R) R))
           (out @ R)"
proof -
  let ?D = "set out"
  let ?s1 = "get_ready s R"
  let ?s2 = "fst (sorter_done ?s1 R)" and ?R2 = "snd (sorter_done ?s1 R)"
  let ?cnt = "\<lambda>k. int (count_list (concat (map (succs ?s1) R)) k)"
  have ds: "distinct (map fst s)" and ks: "fst ` set s = C"
    using inv unfolding kahn_inv_def by simp_all
  have sc: "\<And>k. distinct (succs s k)" "\<And>k. set (succs s k) = {t \<in> C. k \<in> dependencies_of g t}"
    using inv unfolding kahn_inv_def by simp_all
  have cl: "\<forall>k\<in>C. dependencies_of g k \<subseteq> C"
    using inv unfolding kahn_inv_def by simp
  have dor: "distinct (out @ R)" and sub: "set (out @ R) \<subseteq> C"
    using inv unfolding kahn_inv_def by simp_all
  have rd: "\<And>k. k \<in> set R \<Longrightarrow> dependencies_of g k \<subseteq> ?D"
    using inv unfolding kahn_inv_def by simp
  have wt0: "\<forall>k\<in>C - ?D - set R.
           waiting s k = int (card (dependencies_of g k - ?D))
           \<and> \<not> dependencies_of g k \<subseteq> ?D"
    using inv unfolding kahn_inv_def by simp
  have wt: "\<And>k. k \<in> C - ?D - set R \<Longrightarrow> waiting s k = int (card (dependencies_of g k - ?D))"
            "\<And>k. k \<in> C - ?D - set R \<Longrightarrow> \<not> dependencies_of g k \<subseteq> ?D"
    using wt0 by blast+
  have ord: "ordered g out"
    using inv unfolding kahn_inv_def by simp
  note gr = get_ready_props[of s R]
  have "set (map fst ?s1) = set (map fst s)" using gr by simp
  then have k1: "fst ` set ?s1 = C" using ks by simp
  have sc1: "succs ?s1 k = succs s k" for k using gr by simp
  have w1: "k \<notin> set R \<Longrightarrow> waiting ?s1 k = waiting s k" for k using gr by simp
  have dR: "distinct R" using dor by simp
  have RD: "set R \<inter> ?D = {}" using dor by auto
  have a2: "set R \<subseteq> fst ` set ?s1" using sub k1 by simp
  have a3: "\<forall>r\<in>set R. set (succs ?s1 r) \<subseteq> fst ` set ?s1 - set R"
  proof (intro ballI subsetI)
    fix r t assume r: "r \<in> set R" and t: "t \<in> set (succs ?s1 r)"
    then have tc: "t \<in> C" and rt: "r \<in> dependencies_of g t" using sc(2)[of r] sc1 by auto
    have "t \<notin> set R"
    proof
      assume "t \<in> set R"
      then have "r \<in> ?D" using rd rt by blast
      then show False using r RD by auto
    qed
    then show "t \<in> fst ` set ?s1 - set R" using tc k1 by simp
  qed
  from fold_done_node[OF dR a2 a3, of "[]"] obtain nw where
    f: "map fst ?s2 = map fst ?s1" "\<forall>k. succs ?s2 k = succs ?s1 k"
       "\<forall>k. k \<notin> set R \<longrightarrow> waiting ?s2 k = waiting ?s1 k - ?cnt k"
       "?R2 = nw" "distinct nw"
       "set nw = {k. k \<notin> set R \<and> 0 < waiting ?s1 k \<and> waiting ?s1 k \<le> ?cnt k}"
    unfolding sorter_done_def by auto
  have cnt: "?cnt k = int (card (set R \<inter> dependencies_of g k))" if "k \<in> C" for k
  proof -
    have "count_list (concat (map (succs ?s1) R)) k = card {r \<in> set R. k \<in> set (succs ?s1 r)}"
      using dR by (rule count_concat_card) (simp add: sc1 sc(1))
    moreover have "{r \<in> set R. k \<in> set (succs ?s1 r)} = set R \<inter> dependencies_of g k"
      using that by (auto simp: sc1 sc(2))
    ultimately show ?thesis by simp
  qed
  have cnt0: "?cnt k = 0" if "k \<notin> C" for k
  proof -
    have "k \<notin> set (concat (map (succs ?s1) R))" using that by (auto simp: sc1 sc(2))
    then show ?thesis by simp
  qed
  have fin: "finite (dependencies_of g k)" for k by (rule finite_dependencies_of)
  have part: "set R \<inter> dependencies_of g k \<subseteq> dependencies_of g k - ?D" for k
    using RD by auto
  have R2: "set ?R2 = {k \<in> C - ?D - set R. dependencies_of g k \<subseteq> ?D \<union> set R}"
  proof (intro set_eqI iffI)
    fix k assume "k \<in> set ?R2"
    then have k: "k \<notin> set R" "0 < waiting s k" "waiting s k \<le> ?cnt k"
      using f(4,6) w1 by auto
    have kc: "k \<in> C"
    proof (rule ccontr)
      assume "k \<notin> C"
      then have "?cnt k = 0" by (rule cnt0)
      then show False using k(2,3) by simp
    qed
    have kd: "k \<notin> ?D"
    proof
      assume "k \<in> ?D"
      then have "dependencies_of g k \<subseteq> ?D" using ord by (rule ordered_in_out[rotated])
      then have "set R \<inter> dependencies_of g k = {}" using RD by auto
      then show False using k cnt[OF kc] by simp
    qed
    have "card (dependencies_of g k - ?D) \<le> card (set R \<inter> dependencies_of g k)"
      using k wt(1)[of k] kc kd cnt[OF kc] by simp
    then have "set R \<inter> dependencies_of g k = dependencies_of g k - ?D"
      using part[of k] fin[of k] by (intro card_seteq) auto
    then have "dependencies_of g k \<subseteq> ?D \<union> set R" by auto
    then show "k \<in> {k \<in> C - ?D - set R. dependencies_of g k \<subseteq> ?D \<union> set R}"
      using kc kd k by simp
  next
    fix k assume "k \<in> {k \<in> C - ?D - set R. dependencies_of g k \<subseteq> ?D \<union> set R}"
    then have k: "k \<in> C - ?D - set R" "dependencies_of g k \<subseteq> ?D \<union> set R" by auto
    then have kc: "k \<in> C" by simp
    have ne: "dependencies_of g k - ?D \<noteq> {}" using wt(2)[OF k(1)] by auto
    then have pos: "0 < card (dependencies_of g k - ?D)" using fin[of k] by (simp add: card_gt_0_iff)
    have "dependencies_of g k - ?D \<subseteq> set R \<inter> dependencies_of g k" using k(2) by auto
    then have "card (dependencies_of g k - ?D) \<le> card (set R \<inter> dependencies_of g k)"
      by (intro card_mono) auto
    then show "k \<in> set ?R2"
      using f(4,6) w1 k(1) pos wt(1)[OF k(1)] cnt[OF kc] by simp
  qed
  have I1a: "distinct (map fst ?s2)" using f(1) gr ds by simp
  have "set (map fst ?s2) = set (map fst ?s1)" using f(1) by simp
  then have I1b: "fst ` set ?s2 = C" using k1 by simp
  note I1 = I1a I1b
  have I2: "\<forall>k. distinct (succs ?s2 k) \<and> set (succs ?s2 k) = {t \<in> C. k \<in> dependencies_of g t}"
    using f(2) sc1 sc by simp
  have I3: "distinct ((out @ R) @ ?R2)" "set ((out @ R) @ ?R2) \<subseteq> C"
    using dor sub f(4,5) R2 by auto
  have I5: "\<forall>k\<in>set ?R2. dependencies_of g k \<subseteq> set (out @ R)" using R2 by auto
  have I4: "\<forall>k\<in>C - set (out @ R) - set ?R2.
           waiting ?s2 k = int (card (dependencies_of g k - set (out @ R)))
           \<and> \<not> dependencies_of g k \<subseteq> set (out @ R)"
  proof (intro ballI conjI)
    fix k assume k: "k \<in> C - set (out @ R) - set ?R2"
    then have kc: "k \<in> C" and k0: "k \<in> C - ?D - set R" and kr: "k \<notin> set R" by auto
    show "\<not> dependencies_of g k \<subseteq> set (out @ R)" using k R2 by auto
    have "waiting ?s2 k = int (card (dependencies_of g k - ?D))
            - int (card (set R \<inter> dependencies_of g k))"
      using f(3) kr w1 wt(1)[OF k0] cnt[OF kc] by simp
    also have "\<dots> = int (card ((dependencies_of g k - ?D) - (set R \<inter> dependencies_of g k)))"
      using part[of k] fin[of k] by (simp add: card_Diff_subset card_mono)
    also have "(dependencies_of g k - ?D) - (set R \<inter> dependencies_of g k)
        = dependencies_of g k - set (out @ R)" by auto
    finally show "waiting ?s2 k = int (card (dependencies_of g k - set (out @ R)))" .
  qed
  have I7: "ordered g (out @ R)" using ord rd by (intro ordered_append) auto
  show ?thesis
    unfolding kahn_inv_def
    using I1 I2 cl I3 I5 I4 I7 by (intro conjI) assumption+
qed

lemma prepare_props:
  assumes "distinct (map fst s)"
  shows "distinct (prepare s)" and "set (prepare s) = {k \<in> fst ` set s. waiting s k = 0}"
proof -
  show "distinct (prepare s)"
    using assms unfolding prepare_def by (rule distinct_map_filter)
  have m: "map_of s k = Some i \<longleftrightarrow> (k, i) \<in> set s" for k i
    using assms by simp
  show "set (prepare s) = {k \<in> fst ` set s. waiting s k = 0}"
  proof (intro set_eqI iffI)
    fix k assume "k \<in> set (prepare s)"
    then obtain i where i: "(k, i) \<in> set s" "npredecessors i = 0"
      unfolding prepare_def by auto
    then have "map_of s k = Some i" using m by simp
    then have "waiting s k = 0" using i(2) by (simp add: waiting_def)
    moreover have "k \<in> fst ` set s" using i(1) by (rule rev_image_eqI) simp
    ultimately show "k \<in> {k \<in> fst ` set s. waiting s k = 0}" by simp
  next
    fix k assume "k \<in> {k \<in> fst ` set s. waiting s k = 0}"
    then obtain i where i: "(k, i) \<in> set s" and w: "waiting s k = 0" by auto
    then have "map_of s k = Some i" using m by simp
    then have "npredecessors i = 0" using w by (simp add: waiting_def)
    then show "k \<in> set (prepare s)"
      unfolding prepare_def using i by (auto intro!: rev_image_eqI[of "(k, i)"])
  qed
qed

lemma kahn_initial:
  assumes b: "built g C s" and cl: "\<forall>k\<in>C. dependencies_of g k \<subseteq> C"
  shows "kahn_inv g C s (prepare s) []"
proof -
  have ds: "distinct (map fst s)" using b by (simp add: built_def)
  have "fst ` set s = C \<union> (\<Union>k\<in>C. dependencies_of g k)" using b by (simp add: built_def)
  then have ks: "fst ` set s = C" using cl by auto
  have w: "waiting s k = int (card (dependencies_of g k))" if "k \<in> C" for k
    using b that by (simp add: built_def)
  have sc: "\<forall>k. distinct (succs s k) \<and> set (succs s k) = {t \<in> C. k \<in> dependencies_of g t}"
    using b by (simp add: built_def)
  note p = prepare_props[OF ds]
  have z: "waiting s k = 0 \<longleftrightarrow> dependencies_of g k = {}" if "k \<in> C" for k
    using w[OF that] finite_dependencies_of[of g k] by simp
  have r: "set (prepare s) = {k \<in> C. dependencies_of g k = {}}"
    unfolding p(2) ks using z by blast
  have I3: "distinct ([] @ prepare s)" "set ([] @ prepare s) \<subseteq> C" using p(1) r by auto
  have I5: "\<forall>k\<in>set (prepare s). dependencies_of g k \<subseteq> set []" using r by auto
  have I4: "\<forall>k\<in>C - set [] - set (prepare s).
           waiting s k = int (card (dependencies_of g k - set []))
           \<and> \<not> dependencies_of g k \<subseteq> set []"
    using r w by auto
  have I7: "ordered g []" by (simp add: ordered_def)
  show ?thesis
    unfolding kahn_inv_def
    using ds ks sc cl I3 I5 I4 I7 by (intro conjI) assumption+
qed

lemma static_loop_inv:
  "kahn_inv g C s ready out \<Longrightarrow> \<exists>s'. kahn_inv g C s' [] (static_loop s ready out)"
proof (induction s ready out rule: static_loop.induct)
  case (1 s ready out)
  show ?case
  proof (cases "ready = []")
    case True
    then show ?thesis using "1.prems" by (subst static_loop.simps) auto
  next
    case False
    obtain s2 r2 where sd: "sorter_done (get_ready s ready) ready = (s2, r2)"
      by (cases "sorter_done (get_ready s ready) ready")
    have "kahn_inv g C s2 r2 (out @ ready)"
      using kahn_round[OF "1.prems"] sd by simp
    then have "\<exists>s'. kahn_inv g C s' [] (static_loop s2 r2 (out @ ready))"
      by (rule "1.IH"[OF False sd[symmetric]])
    moreover have "static_loop s ready out = static_loop s2 r2 (out @ ready)"
      using False sd by (subst static_loop.simps) simp
    ultimately show ?thesis by simp
  qed
qed

definition cyclic_in :: "graph \<Rightarrow> key set \<Rightarrow> bool" where
  "cyclic_in g C \<longleftrightarrow> (\<exists>k\<in>C. (k, k) \<in> (dep_rel g)\<^sup>+)"

lemma first_index_less:
  "x \<in> set xs \<Longrightarrow> length (takeWhile (\<lambda>y. y \<noteq> x) xs) < length xs"
  by (induction xs) auto

lemma first_index_before:
  assumes "d \<in> set (take j out)"
  shows "length (takeWhile (\<lambda>y. y \<noteq> d) out) < j"
proof -
  have "out = take j out @ drop j out" by simp
  then have "takeWhile (\<lambda>y. y \<noteq> d) out = takeWhile (\<lambda>y. y \<noteq> d) (take j out)"
    using assms by (metis (mono_tags, lifting) takeWhile_append1)
  moreover have "length (takeWhile (\<lambda>y. y \<noteq> d) (take j out)) < length (take j out)"
    using assms by (rule first_index_less)
  ultimately show ?thesis by simp
qed

lemma ordered_rank:
  assumes o: "ordered g out" and k: "k \<in> set out" and d: "d \<in> dependencies_of g k"
  shows "length (takeWhile (\<lambda>y. y \<noteq> d) out) < length (takeWhile (\<lambda>y. y \<noteq> k) out)"
proof -
  let ?j = "length (takeWhile (\<lambda>y. y \<noteq> k) out)"
  have j: "?j < length out" using k by (rule first_index_less)
  then have e: "out ! ?j = k" using nth_length_takeWhile[of "\<lambda>y. y \<noteq> k" out] by simp
  have "dependencies_of g (out ! ?j) \<subseteq> set (take ?j out)"
    using o j unfolding ordered_def by blast
  then have "dependencies_of g k \<subseteq> set (take ?j out)" unfolding e .
  then show ?thesis using d by (intro first_index_before) auto
qed

lemma path_in_closed:
  assumes cl: "\<forall>k\<in>C. dependencies_of g k \<subseteq> C"
      and p: "(a, b) \<in> (dep_rel g)\<^sup>+"
  shows "b \<in> C \<longrightarrow> a \<in> C \<and> (a, b) \<in> {(d, t). t \<in> C \<and> d \<in> dependencies_of g t}\<^sup>+"
  using p
proof (induction rule: trancl_induct)
  case (base y)
  then show ?case using cl by (auto simp: dep_rel_def)
next
  case (step y z)
  show ?case
  proof
    assume z: "z \<in> C"
    have yz: "y \<in> dependencies_of g z" using step.hyps(2) by (simp add: dep_rel_def)
    then have "y \<in> C" using cl z by auto
    then have "a \<in> C" "(a, y) \<in> {(d, t). t \<in> C \<and> d \<in> dependencies_of g t}\<^sup>+"
      using step.IH by auto
    moreover have "(y, z) \<in> {(d, t). t \<in> C \<and> d \<in> dependencies_of g t}" using yz z by simp
    ultimately show "a \<in> C \<and> (a, z) \<in> {(d, t). t \<in> C \<and> d \<in> dependencies_of g t}\<^sup>+"
      by (auto intro: trancl_into_trancl)
  qed
qed

lemma complete_order_acyclic:
  assumes cl: "\<forall>k\<in>C. dependencies_of g k \<subseteq> C"
      and o: "ordered g out" and c: "set out = C"
  shows "\<not> cyclic_in g C"
proof
  assume "cyclic_in g C"
  then obtain k where k: "k \<in> C" "(k, k) \<in> (dep_rel g)\<^sup>+" by (auto simp: cyclic_in_def)
  let ?r = "{(d, t). t \<in> C \<and> d \<in> dependencies_of g t}"
  let ?f = "\<lambda>x. length (takeWhile (\<lambda>y. y \<noteq> x) out)"
  have kk: "(k, k) \<in> ?r\<^sup>+" using path_in_closed[OF cl k(2)] k(1) by simp
  have "?f a < ?f b" if "(a, b) \<in> ?r" for a b
    using that o c by (auto intro: ordered_rank)
  then have "acyclic (?r\<inverse>)" by (intro acyclicI_order[of _ ?f]) auto
  then have "acyclic ?r" by simp
  then show False using kk by (auto simp: acyclic_def)
qed

lemma stuck_cyclic:
  assumes inv: "kahn_inv g C s [] out" and ne: "set out \<noteq> C"
  shows "cyclic_in g C"
proof (rule ccontr)
  assume nc: "\<not> cyclic_in g C"
  let ?U = "C - set out"
  let ?r = "{(d, k). d \<in> ?U \<and> k \<in> ?U \<and> d \<in> dependencies_of g k}"
  have ks: "fst ` set s = C" using inv unfolding kahn_inv_def by simp
  have fC: "finite C" using ks by (metis finite_imageI finite_set)
  have sub: "set out \<subseteq> C" using inv unfolding kahn_inv_def by simp
  have cl: "\<forall>k\<in>C. dependencies_of g k \<subseteq> C" using inv unfolding kahn_inv_def by simp
  have w: "\<forall>k\<in>C - set out - set []. waiting s k = int (card (dependencies_of g k - set out))
           \<and> \<not> dependencies_of g k \<subseteq> set out"
    using inv unfolding kahn_inv_def by simp
  have U: "?U \<noteq> {}" using ne sub by auto
  have "?r \<subseteq> ?U \<times> ?U" by auto
  then have fr: "finite ?r" using fC by (meson finite_Diff finite_SigmaI finite_subset)
  have "?r \<subseteq> dep_rel g" by (auto simp: dep_rel_def)
  then have mono: "?r\<^sup>+ \<subseteq> (dep_rel g)\<^sup>+" by (rule trancl_mono_subset)
  have "acyclic ?r"
    unfolding acyclic_def
  proof (intro allI notI)
    fix x assume x: "(x, x) \<in> ?r\<^sup>+"
    then have "x \<in> Domain ?r" by (metis (no_types, lifting) Domain.DomainI converse_tranclE)
    then have "x \<in> C" by auto
    then show False using x mono nc by (auto simp: cyclic_in_def)
  qed
  then have "wf ?r" using fr by (intro finite_acyclic_wf)
  then obtain z where z: "z \<in> ?U" "\<And>y. (y, z) \<in> ?r \<Longrightarrow> y \<notin> ?U"
    using U by (metis (no_types, lifting) ex_in_conv wfE_min)
  have "\<not> dependencies_of g z \<subseteq> set out" using w z(1) by simp
  then obtain d where d: "d \<in> dependencies_of g z" "d \<notin> set out" by auto
  then have "d \<in> ?U" using cl z(1) by auto
  then have "(d, z) \<in> ?r" using d z(1) by simp
  then show False using z(2) \<open>d \<in> ?U\<close> by blast
qed

lemma static_order_built:
  assumes b: "built g C s" and cl: "\<forall>k\<in>C. dependencies_of g k \<subseteq> C"
  shows "if cyclic_in g C then static_order s = None
         else \<exists>order. static_order s = Some order \<and> distinct order \<and> set order = C
                \<and> ordered g order"
proof -
  let ?out = "static_loop s (prepare s) []"
  from static_loop_inv[OF kahn_initial[OF b cl]] obtain s' where inv: "kahn_inv g C s' [] ?out"
    by blast
  have ds: "distinct (map fst s)" using b by (simp add: built_def)
  have "fst ` set s = C \<union> (\<Union>k\<in>C. dependencies_of g k)" using b by (simp add: built_def)
  then have ks: "fst ` set s = C" using cl by auto
  have fC: "finite C" using ks by (metis finite_imageI finite_set)
  have len: "length s = card C"
    using ds ks by (metis distinct_card length_map set_map)
  have d: "distinct ?out" and sub: "set ?out \<subseteq> C" and o: "ordered g ?out"
    using inv unfolding kahn_inv_def by simp_all
  have lo: "length ?out = card (set ?out)" using d by (simp add: distinct_card)
  show ?thesis
  proof (cases "set ?out = C")
    case True
    then have "\<not> cyclic_in g C" using cl o by (intro complete_order_acyclic)
    moreover have "static_order s = Some ?out"
      using True lo len by (simp add: static_order_def)
    ultimately show ?thesis using d True o by simp
  next
    case False
    then have "cyclic_in g C" using inv by (intro stuck_cyclic)
    moreover have "card (set ?out) < card C"
      using False sub fC by (intro psubset_card_mono) auto
    then have "static_order s = None" using lo len by (simp add: static_order_def)
    ultimately show ?thesis by simp
  qed
qed

definition requested :: "graph \<Rightarrow> key list option \<Rightarrow> key set" where
  "requested g limit_to =
     (case limit_to of None \<Rightarrow> fst ` set (nodes g)
      | Some ks \<Rightarrow> {k \<in> set ks. has_key (nodes g) k})"

lemma closure_closed: "\<forall>k\<in>closure g T. dependencies_of g k \<subseteq> closure g T"
  using closure_deps by blast

lemma closure_empty: "closure g {} = {}"
  by (simp add: closure_def)

lemma topological_order_result:
  "if cyclic_in g (closure g (requested g limit_to))
   then topological_order iter g limit_to = Inl (GraphError CycleDetected)
   else \<exists>order. topological_order iter g limit_to = Inr order \<and> distinct order
          \<and> set order = closure g (requested g limit_to) \<and> ordered g order"
proof -
  let ?T = "requested g limit_to"
  let ?T' = "case limit_to of None \<Rightarrow> fst ` set (nodes g)
             | Some ks \<Rightarrow> set (filter (has_key (nodes g)) ks)"
  have T: "?T' = ?T" by (auto simp: requested_def split: option.splits)
  show ?thesis
  proof (cases "limit_to \<noteq> None \<and> ?T = {}")
    case True
    then have "topological_order iter g limit_to = Inr []"
      unfolding topological_order_def Let_def T by simp
    moreover have "closure g ?T = {}" using True by (simp add: closure_empty)
    ultimately show ?thesis by (simp add: cyclic_in_def ordered_def)
  next
    case False
    have fT: "finite ?T" by (auto simp: requested_def split: option.splits)
    let ?s = "fst (add_dependencies iter g (iterate iter ?T) [] {})"
    have st: "set (iterate iter ?T) = ?T" using iterate_finite[OF fT] by simp
    have b: "built g (closure g ?T) ?s" using st by (rule add_dependencies_closure)
    have t: "topological_order iter g limit_to
        = (case static_order ?s of None \<Rightarrow> Inl (GraphError CycleDetected)
           | Some order \<Rightarrow> Inr order)"
      using False unfolding topological_order_def Let_def T by auto
    show ?thesis
      using static_order_built[OF b closure_closed] unfolding t
      by (auto split: if_splits)
  qed
qed

lemma ordered_before:
  assumes "ordered g order" "t \<in> set order" "s \<in> dependencies_of g t"
  shows "\<exists>i j. i < j \<and> j < length order \<and> order ! i = s \<and> order ! j = t"
proof -
  from assms(2) obtain j where j: "j < length order" "order ! j = t"
    by (auto simp: in_set_conv_nth)
  then have "s \<in> set (take j order)" using assms(1,3) unfolding ordered_def by blast
  then obtain i where "i < length (take j order)" "take j order ! i = s"
    by (auto simp: in_set_conv_nth)
  then have "i < j" "order ! i = s" by simp_all
  then show ?thesis using j by blast
qed

text \<open>
  C1.  For a graph without cycles (the relation "\<open>s\<close> is a dependency of \<open>t\<close>" is acyclic)
  and every \<open>limit_to\<close>, \<open>topological_order\<close> returns an order without repetition whose
  elements are exactly the transitive-dependency closure of the requested nodes (those
  keys of \<open>limit_to\<close> that are nodes of the graph, which is how the code reads the
  request; all nodes when \<open>limit_to\<close> is \<open>None\<close>), in which every dependency \<open>s\<close> of a node
  \<open>t\<close> of the order stands at a smaller index than \<open>t\<close>; without \<open>limit_to\<close> the order
  covers all nodes of the graph.  This holds for every iteration order of the sets.
\<close>

theorem topological_order_respects_dependencies:
  assumes "acyclic (dep_rel g)"
  shows "\<exists>order. topological_order iter g limit_to = Inr order
     \<and> distinct order
     \<and> set order = closure g (requested g limit_to)
     \<and> (\<forall>s t. t \<in> set order \<and> s \<in> dependencies_of g t \<longrightarrow>
           (\<exists>i j. i < j \<and> j < length order \<and> order ! i = s \<and> order ! j = t))
     \<and> (limit_to = None \<longrightarrow> fst ` set (nodes g) \<subseteq> set order)"
proof -
  have "\<not> cyclic_in g (closure g (requested g limit_to))"
    using assms by (auto simp: cyclic_in_def acyclic_def)
  then obtain order where o: "topological_order iter g limit_to = Inr order" "distinct order"
      "set order = closure g (requested g limit_to)" "ordered g order"
    using topological_order_result[of g limit_to iter] by auto
  have "limit_to = None \<longrightarrow> fst ` set (nodes g) \<subseteq> set order"
  proof
    assume "limit_to = None"
    then have "requested g limit_to = fst ` set (nodes g)" by (simp add: requested_def)
    then show "fst ` set (nodes g) \<subseteq> set order"
      using o(3) closure_base[of "requested g limit_to" g] by simp
  qed
  then show ?thesis using o ordered_before[OF o(4)] by blast
qed

text \<open>
  C7.  When a node of the closure of the requested targets lies on a cycle of the
  dependency relation, \<open>topological_order\<close> raises the cycle \<open>GraphError\<close>, and
  \<open>evaluate\<close> fails with that error and returns the scheduler as it was: the same
  handler invocations, cache, dirty set and progress calls.
\<close>

theorem cycle_fails_without_effects:
  assumes "\<exists>k\<in>closure (sched_graph sch) (requested (sched_graph sch) targets).
             (k, k) \<in> (dep_rel (sched_graph sch))\<^sup>+"
  shows "topological_order (set_order pf) (sched_graph sch) targets
           = Inl (GraphError CycleDetected)
       \<and> evaluate pf reg targets context force progress sch
           = (Inl (GraphError CycleDetected), sch)"
proof -
  let ?g = "sched_graph sch"
  let ?rn = "case targets of None \<Rightarrow> map fst (nodes ?g)
             | Some ts \<Rightarrow> filter (has_key (nodes ?g)) ts"
  have c: "cyclic_in ?g (closure ?g (requested ?g targets))"
    using assms by (simp add: cyclic_in_def)
  have r: "requested ?g (Some ?rn) = requested ?g targets"
    by (auto simp: requested_def has_key_def split: option.splits)
  have 1: "topological_order (set_order pf) ?g targets = Inl (GraphError CycleDetected)"
    using topological_order_result[of ?g targets "set_order pf"] c by simp
  have 2: "topological_order (set_order pf) ?g (Some ?rn) = Inl (GraphError CycleDetected)"
    using topological_order_result[of ?g "Some ?rn" "set_order pf"] c r by simp
  have "requested ?g targets \<noteq> {}" using assms by (auto simp: closure_empty)
  moreover have "set ?rn = requested ?g targets"
    by (cases targets) (simp_all add: requested_def)
  ultimately have ne: "?rn \<noteq> []" by auto
  have "evaluate pf reg targets context force progress sch = (Inl (GraphError CycleDetected), sch)"
    unfolding evaluate_def Let_def using ne 2 by simp
  with 1 show ?thesis by simp
qed

definition example_cycle :: graph where
  "example_cycle = mutate_all (listed_order [''a'', ''b'']) (Graph ''cycle'' [])
     [AddNode (plain_node ''a'' ''echo''), AddNode (plain_node ''b'' ''echo''),
      Connect ''a'' ''in'' ''b'' ''in'', Connect ''b'' ''in'' ''a'' ''in'']"

lemma example_cycle_value:
  "example_cycle =
     \<lparr>graph_name = ''cycle'', graph_metadata = [],
      nodes = [(''a'', plain_node ''a'' ''echo''), (''b'', plain_node ''b'' ''echo'')],
      connections = [(''b'', [(''in'', \<lparr>source_node = ''a'', source_port = ''in''\<rparr>)]),
                     (''a'', [(''in'', \<lparr>source_node = ''b'', source_port = ''in''\<rparr>)])],
      dependents = [(''a'', {''b''}), (''b'', {''a''})],
      dirty = {''a'', ''b''}\<rparr>"
  by (simp add: example_cycle_def add_node_def connect_def mark_dirty_def has_key_def
      inputs_for_def dependents_of_def Graph_def plain_node_def insert_commute)

text \<open>C1 on the example graph \<open>s.out \<rightarrow> t.in\<close>: the order for the target \<open>t\<close> has
  \<open>s\<close> before \<open>t\<close>.\<close>

theorem topological_order_respects_dependencies_witness:
  "\<exists>order. topological_order (listed_order [''t'', ''s'', ''r'']) example_graph (Some [''t''])
              = Inr order
     \<and> (\<exists>i j. i < j \<and> j < length order \<and> order ! i = ''s'' \<and> order ! j = ''t'')"
proof -
  have d: "dependencies_of example_graph k = (if k = ''t'' then {''s''} else {})" for k
    by (simp add: dependencies_of_def inputs_for_def example_graph_value)
  have "acyclic ((dep_rel example_graph)\<inverse>)"
    by (rule acyclicI_order[of _ "\<lambda>k. if k = ''t'' then 1 else (0::nat)"])
       (auto simp: dep_rel_def d split: if_splits)
  then have a: "acyclic (dep_rel example_graph)" by simp
  from topological_order_respects_dependencies[OF a,
      of "listed_order [''t'', ''s'', ''r'']" "Some [''t'']"]
  obtain order where o:
    "topological_order (listed_order [''t'', ''s'', ''r'']) example_graph (Some [''t'']) = Inr order"
    "set order = closure example_graph (requested example_graph (Some [''t'']))"
    "\<forall>s t. t \<in> set order \<and> s \<in> dependencies_of example_graph t \<longrightarrow>
        (\<exists>i j. i < j \<and> j < length order \<and> order ! i = s \<and> order ! j = t)"
    by blast
  have "''t'' \<in> requested example_graph (Some [''t''])"
    by (simp add: requested_def has_key_def example_graph_value)
  then have "''t'' \<in> set order" using o(2) closure_base by blast
  moreover have "''s'' \<in> dependencies_of example_graph ''t''" by (simp add: d)
  ultimately show ?thesis using o(1,3) by blast
qed

text \<open>C7 on the graph \<open>a \<rightarrow> b \<rightarrow> a\<close>: evaluation of \<open>a\<close> with a progress callback fails
  and leaves the fresh scheduler untouched.\<close>

theorem cycle_fails_without_effects_witness:
  "evaluate example_platform example_registry (Some [''a'']) None False True
     (GraphScheduler example_cycle None)
   = (Inl (GraphError CycleDetected), GraphScheduler example_cycle None)"
proof -
  let ?sch = "GraphScheduler example_cycle None"
  have g: "sched_graph ?sch = example_cycle" by (simp add: GraphScheduler_def)
  have ab: "(''a'', ''b'') \<in> dep_rel example_cycle" "(''b'', ''a'') \<in> dep_rel example_cycle"
    by (simp_all add: dep_rel_def dependencies_of_def inputs_for_def example_cycle_value)
  then have "(''a'', ''a'') \<in> (dep_rel example_cycle)\<^sup>+"
    by (meson r_into_trancl' trancl_trans)
  moreover have "''a'' \<in> requested example_cycle (Some [''a''])"
    by (simp add: requested_def has_key_def example_cycle_value)
  then have "''a'' \<in> closure example_cycle (requested example_cycle (Some [''a'']))"
    using closure_base by blast
  ultimately have h: "\<exists>k\<in>closure (sched_graph ?sch) (requested (sched_graph ?sch) (Some [''a''])).
             (k, k) \<in> (dep_rel (sched_graph ?sch))\<^sup>+"
    unfolding g by blast
  show ?thesis
    using cycle_fails_without_effects[OF h, of example_platform example_registry None False True]
    by simp
qed


section \<open>Evaluations with memoization\<close>

text \<open>
  The results of a pass and the cache are \<open>settled\<close> on a set of nodes when both hold
  the same outputs for each of them.  The execution order has the \<open>sources_first\<close>: the
  sources of a node are evaluated before it.  The cache entry of a node is \<open>validated\<close>
  when the cache stores outputs for the node and the stored signature is the signature
  of the node over the inputs read from the cached outputs of its sources.
  \<open>result_nodes\<close> and \<open>context_of\<close> are the first two assignments of \<open>evaluate\<close>.
\<close>

definition settled :: "execution_cache \<Rightarrow> results \<Rightarrow> key set \<Rightarrow> bool" where
  "settled c res K \<longleftrightarrow> (\<forall>j\<in>K. \<exists>outs. map_of res j = Some outs \<and> cache_get c j = Some outs)"







lemma settled_mono: "settled c res K \<Longrightarrow> K' \<subseteq> K \<Longrightarrow> settled c res K'"
  unfolding settled_def by blast

lemma evaluate_loop_append:
  "evaluate_loop pf reg ctx force progress ntotal (xs @ ys) res sch
   = (case evaluate_loop pf reg ctx force progress ntotal xs res sch of
        (Inl e, sch') \<Rightarrow> (Inl e, sch')
      | (Inr res', sch') \<Rightarrow> evaluate_loop pf reg ctx force progress ntotal ys res' sch')"
proof (induction xs arbitrary: res sch)
  case Nil
  show ?case by simp
next
  case (Cons x xs)
  obtain i k where x: "x = (i, k)" by (cases x)
  show ?case unfolding x using Cons.IH
    by (simp split: prod.splits sum.splits)
qed


lemma add_dependencies_dirty:
  "add_dependencies iter (g\<lparr>dirty := D\<rparr>) pending sorter visited
   = add_dependencies iter g pending sorter visited"
proof (induction iter g pending sorter visited rule: add_dependencies.induct)
  case (1 iter g sorter visited)
  show ?case by simp
next
  case (2 iter g k pending sorter visited)
  have d: "dependencies_of (g\<lparr>dirty := D\<rparr>) k = dependencies_of g k"
    by (simp add: dependencies_of_def inputs_for_def)
  show ?case using 2 by (simp add: d Let_def)
qed

lemma topological_order_dirty:
  "topological_order iter (g\<lparr>dirty := D\<rparr>) limit_to = topological_order iter g limit_to"
  unfolding topological_order_def Let_def
  by (cases limit_to) (auto simp: add_dependencies_dirty)



definition result_nodes :: "graph \<Rightarrow> key list option \<Rightarrow> key list" where
  "result_nodes g targets =
     (case targets of None \<Rightarrow> map fst (nodes g) | Some ts \<Rightarrow> filter (has_key (nodes g)) ts)"

definition context_of :: "runtime_context option \<Rightarrow> runtime_context" where
  "context_of context = (case context of None \<Rightarrow> RuntimeContext | Some c \<Rightarrow> c)"



lemma evaluate_unfold:
  "evaluate pf reg targets context force progress sch =
     (if result_nodes (sched_graph sch) targets = [] then (Inr [], sch)
      else case topological_order (set_order pf) (sched_graph sch)
                  (Some (result_nodes (sched_graph sch) targets)) of
             Inl e \<Rightarrow> (Inl e, sch)
           | Inr order \<Rightarrow>
               (case evaluate_loop pf reg (context_of context) force progress (length order)
                       (zip [1 ..< Suc (length order)] order) []
                       (if progress
                        then sch\<lparr>progress_calls := progress_calls sch @ [(0, length order, [])]\<rparr>
                        else sch) of
                  (Inl e, sch') \<Rightarrow> (Inl e, sch')
                | (Inr res, sch') \<Rightarrow>
                    (Inr (dict_of (map (\<lambda>n. (n, the (map_of res n)))
                              (filter (has_key res) (result_nodes (sched_graph sch) targets)))),
                     sch')))"
  unfolding evaluate_def result_nodes_def context_of_def Let_def ..









section \<open>The cache decision of the scheduler\<close>

lemma zip_upt_nth:
  "j < length order \<Longrightarrow> zip [1 ..< Suc (length order)] order ! j = (Suc j, order ! j)"
  by (simp del: upt_Suc)

lemma evaluate_loop_single:
  "evaluate_loop pf reg ctx force progress ntotal [(i, k)] res sch
   = evaluate_node pf reg ctx force progress ntotal i k res sch"
  by (simp split: prod.splits sum.splits)

text \<open>The pass up to the node of index \<open>j\<close>, and the whole call, from the state in
  which the loop reaches that node.\<close>

lemma evaluate_at_node:
  assumes rn: "result_nodes (sched_graph sch) targets \<noteq> []"
      and order: "topological_order (set_order pf) (sched_graph sch)
                    (Some (result_nodes (sched_graph sch) targets)) = Inr order"
      and j: "j < length order"
      and reach: "evaluate_loop pf reg (context_of context) force progress (length order)
                    (take j (zip [1 ..< Suc (length order)] order)) []
                    (if progress
                     then sch\<lparr>progress_calls := progress_calls sch @ [(0, length order, [])]\<rparr>
                     else sch) = (Inr res, schj)"
  shows "evaluate_loop pf reg (context_of context) force progress (length order)
            (take (Suc j) (zip [1 ..< Suc (length order)] order)) []
            (if progress
             then sch\<lparr>progress_calls := progress_calls sch @ [(0, length order, [])]\<rparr>
             else sch)
         = evaluate_node pf reg (context_of context) force progress (length order) (Suc j)
             (order ! j) res schj"
    and "evaluate_node pf reg (context_of context) force progress (length order) (Suc j)
             (order ! j) res schj = (Inl e, s)
         \<Longrightarrow> evaluate pf reg targets context force progress sch = (Inl e, s)"
proof -
  define n where "n = length order"
  define items where "items = zip [1 ..< Suc n] order"
  define sch0 where "sch0 = (if progress
        then sch\<lparr>progress_calls := progress_calls sch @ [(0, n, [])]\<rparr> else sch)"
  define ctx where "ctx = context_of context"
  have len: "length items = n" by (simp add: items_def n_def del: upt_Suc)
  have jn: "j < length items" using j len n_def by simp
  have nth: "items ! j = (Suc j, order ! j)"
    unfolding items_def n_def using j by (rule zip_upt_nth)
  have r: "evaluate_loop pf reg ctx force progress n (take j items) [] sch0 = (Inr res, schj)"
    using reach unfolding n_def items_def sch0_def ctx_def .
  have t: "take (Suc j) items = take j items @ [(Suc j, order ! j)]"
    using take_Suc_conv_app_nth[OF jn] nth by simp
  have a: "evaluate_loop pf reg ctx force progress n (take (Suc j) items) [] sch0
         = evaluate_node pf reg ctx force progress n (Suc j) (order ! j) res schj"
    unfolding t evaluate_loop_append r by (simp add: evaluate_loop_single del: evaluate_loop.simps)
  show "evaluate_loop pf reg (context_of context) force progress (length order)
            (take (Suc j) (zip [1 ..< Suc (length order)] order)) []
            (if progress
             then sch\<lparr>progress_calls := progress_calls sch @ [(0, length order, [])]\<rparr>
             else sch)
         = evaluate_node pf reg (context_of context) force progress (length order) (Suc j)
             (order ! j) res schj"
    using a unfolding n_def items_def sch0_def ctx_def .
  assume f: "evaluate_node pf reg (context_of context) force progress (length order) (Suc j)
             (order ! j) res schj = (Inl e, s)"
  have w: "items = take j items @ (Suc j, order ! j) # drop (Suc j) items"
    using id_take_nth_drop[OF jn] nth by simp
  have l: "evaluate_loop pf reg ctx force progress n items [] sch0 = (Inl e, s)"
    apply (subst w)
    unfolding evaluate_loop_append r
    using f unfolding n_def ctx_def by simp
  have ev: "evaluate pf reg targets context force progress sch
        = (case evaluate_loop pf reg ctx force progress n items [] sch0 of
             (Inl e, sch') \<Rightarrow> (Inl e, sch')
           | (Inr res, sch') \<Rightarrow>
               (Inr (dict_of (map (\<lambda>n. (n, the (map_of res n)))
                         (filter (has_key res) (result_nodes (sched_graph sch) targets)))),
                sch'))"
    unfolding evaluate_unfold items_def sch0_def n_def ctx_def using rn order by simp
  show "evaluate pf reg targets context force progress sch = (Inl e, s)"
    unfolding ev l by simp
qed

definition example_corrupt :: scheduler where
  "example_corrupt =
     example_cached\<lparr>sched_cache := (sched_cache example_cached)\<lparr>cache_values := []\<rparr>\<rparr>"

text \<open>
  C2.  Let \<open>evaluate\<close> have an execution order, and let its loop reach the node \<open>k\<close> of
  index \<open>j\<close> of that order with the results \<open>res\<close> and the scheduler \<open>schj\<close>; let the
  node exist, its inputs be gathered and its signature \<open>sig\<close> be computed.  Call \<open>reuse\<close>
  the conjunction: \<open>force\<close> is false, memoization is enabled by the context, \<open>k\<close> is not
  dirty, and the signature stored for \<open>k\<close> equals \<open>sig\<close>.  If \<open>reuse\<close> holds and the cache
  stores no outputs for \<open>k\<close>, \<open>evaluate\<close> fails with the cache-miss \<open>SchedulerError\<close>
  and leaves the scheduler as it was on reaching \<open>k\<close>.  If \<open>reuse\<close> holds and outputs are
  stored, the loop goes on with these outputs as the result of \<open>k\<close>: no handler is
  invoked and the cache is not written (only the dirty flag of \<open>k\<close> and the progress
  record change).  If \<open>reuse\<close> does not hold, the handler is looked up: an unknown type
  makes \<open>evaluate\<close> fail with the \<open>RegistryError\<close>; otherwise the handler is invoked,
  the mapping it returns is the result of \<open>k\<close> (stored in the cache when memoization is
  enabled), and if it raises \<open>evaluate\<close> fails with the node-failed \<open>SchedulerError\<close>.
\<close>

theorem cache_reuse_decision:
  assumes rn: "result_nodes (sched_graph sch) targets \<noteq> []"
      and order: "topological_order (set_order pf) (sched_graph sch)
                    (Some (result_nodes (sched_graph sch) targets)) = Inr order"
      and j: "j < length order"
      and reach: "evaluate_loop pf reg (context_of context) force progress (length order)
                    (take j (zip [1 ..< Suc (length order)] order)) []
                    (if progress
                     then sch\<lparr>progress_calls := progress_calls sch @ [(0, length order, [])]\<rparr>
                     else sch) = (Inr res, schj)"
      and n: "map_of (nodes (sched_graph schj)) (order ! j) = Some n"
      and iv: "collect_inputs schj (order ! j) res = Inr iv"
      and sg: "make_signature pf n iv = Inr sig"
  shows
    "(let k = order ! j;
          ctx = context_of context;
          ntotal = length order;
          reuse = (\<not> force \<and> enable_memoization ctx \<and> k \<notin> dirty (sched_graph schj)
                   \<and> map_of (cache_signatures (sched_cache schj)) k = Some sig);
          upto = evaluate_loop pf reg ctx force progress ntotal
                   (take (Suc j) (zip [1 ..< Suc ntotal] order)) []
                   (if progress
                    then sch\<lparr>progress_calls := progress_calls sch @ [(0, ntotal, [])]\<rparr>
                    else sch);
          whole = evaluate pf reg targets context force progress sch
      in (reuse \<and> cache_get (sched_cache schj) k = None \<longrightarrow>
            whole = (Inl (SchedulerError (CacheMiss k)), schj))
       \<and> (\<forall>outputs. reuse \<and> cache_get (sched_cache schj) k = Some outputs \<longrightarrow>
            upto = (Inr (AList.update k outputs res),
                    schj\<lparr>sched_graph := clear_dirty (sched_graph schj) k,
                         progress_calls := (if progress
                                            then progress_calls schj @ [(Suc j, ntotal, k)]
                                            else progress_calls schj)\<rparr>))
       \<and> (\<not> reuse \<and> reg (node_type n) = None \<longrightarrow>
            whole = (Inl (RegistryError (node_type n)), schj))
       \<and> (\<forall>h. \<not> reuse \<and> reg (node_type n) = Some h \<longrightarrow>
            invocations (snd upto) = invocations schj @ [k]
            \<and> (\<forall>outputs. h n iv ctx = Returned (PyDict outputs) \<longrightarrow>
                  fst upto = Inr (AList.update k outputs res)
                  \<and> sched_cache (snd upto)
                      = (if enable_memoization ctx
                         then cache_store (sched_cache schj) k sig outputs
                         else sched_cache schj))
            \<and> (\<forall>msg. h n iv ctx = Raised msg \<longrightarrow>
                  whole = (Inl (SchedulerError (NodeFailed (node_key n) msg)),
                           schj\<lparr>invocations := invocations schj @ [k]\<rparr>))))"
proof -
  define k where "k = order ! j"
  define ctx where "ctx = context_of context"
  define ntotal where "ntotal = length order"
  define reuse where "reuse \<longleftrightarrow> \<not> force \<and> enable_memoization ctx \<and> k \<notin> dirty (sched_graph schj)
                   \<and> map_of (cache_signatures (sched_cache schj)) k = Some sig"
  define upto where "upto = evaluate_loop pf reg ctx force progress ntotal
                   (take (Suc j) (zip [1 ..< Suc ntotal] order)) []
                   (if progress
                    then sch\<lparr>progress_calls := progress_calls sch @ [(0, ntotal, [])]\<rparr>
                    else sch)"
  define whole where "whole = evaluate pf reg targets context force progress sch"
  define step where "step = evaluate_node pf reg ctx force progress ntotal (Suc j) k res schj"
  have up: "upto = step"
    unfolding upto_def step_def ctx_def ntotal_def k_def
    using rn order j reach by (rule evaluate_at_node(1))
  have fail: "whole = (Inl e, s)" if "step = (Inl e, s)" for e s
    unfolding whole_def
    using rn order j reach that[unfolded step_def ctx_def ntotal_def k_def]
    by (rule evaluate_at_node(2))
  have uc: "use_cache force ctx schj k sig = reuse"
    by (simp add: use_cache_def is_valid_def reuse_def)
  have n': "map_of (nodes (sched_graph schj)) k = Some n"
    and iv': "collect_inputs schj k res = Inr iv"
    using n iv by (simp_all add: k_def)
  have 1: "whole = (Inl (SchedulerError (CacheMiss k)), schj)"
    if "reuse" "cache_get (sched_cache schj) k = None"
    by (rule fail) (simp add: step_def evaluate_node_def n' iv' sg uc that)
  have 2: "upto = (Inr (AList.update k outputs res),
                    schj\<lparr>sched_graph := clear_dirty (sched_graph schj) k,
                         progress_calls := (if progress
                                            then progress_calls schj @ [(Suc j, ntotal, k)]
                                            else progress_calls schj)\<rparr>)"
    if "reuse" "cache_get (sched_cache schj) k = Some outputs" for outputs
    unfolding up by (simp add: step_def evaluate_node_def n' iv' sg uc that record_outputs_def)
  have 3: "whole = (Inl (RegistryError (node_type n)), schj)"
    if "\<not> reuse" "reg (node_type n) = None"
    by (rule fail) (simp add: step_def evaluate_node_def n' iv' sg uc that)
  have 4: "invocations (snd upto) = invocations schj @ [k]"
    if "\<not> reuse" "reg (node_type n) = Some h" for h
    unfolding up
    by (simp add: step_def evaluate_node_def n' iv' sg uc that record_outputs_def Let_def
        split: handler_outcome.splits pyval.splits)
  have 5: "fst upto = Inr (AList.update k outputs res)
           \<and> sched_cache (snd upto)
                = (if enable_memoization ctx
                   then cache_store (sched_cache schj) k sig outputs
                   else sched_cache schj)"
    if "\<not> reuse" "reg (node_type n) = Some h" "h n iv ctx = Returned (PyDict outputs)"
    for h outputs
    unfolding up
    by (simp add: step_def evaluate_node_def n' iv' sg uc that record_outputs_def Let_def)
  have 6: "whole = (Inl (SchedulerError (NodeFailed (node_key n) msg)),
                           schj\<lparr>invocations := invocations schj @ [k]\<rparr>)"
    if "\<not> reuse" "reg (node_type n) = Some h" "h n iv ctx = Raised msg" for h msg
    by (rule fail) (simp add: step_def evaluate_node_def n' iv' sg uc that Let_def)
  have "(reuse \<and> cache_get (sched_cache schj) k = None \<longrightarrow>
            whole = (Inl (SchedulerError (CacheMiss k)), schj))
       \<and> (\<forall>outputs. reuse \<and> cache_get (sched_cache schj) k = Some outputs \<longrightarrow>
            upto = (Inr (AList.update k outputs res),
                    schj\<lparr>sched_graph := clear_dirty (sched_graph schj) k,
                         progress_calls := (if progress
                                            then progress_calls schj @ [(Suc j, ntotal, k)]
                                            else progress_calls schj)\<rparr>))
       \<and> (\<not> reuse \<and> reg (node_type n) = None \<longrightarrow>
            whole = (Inl (RegistryError (node_type n)), schj))
       \<and> (\<forall>h. \<not> reuse \<and> reg (node_type n) = Some h \<longrightarrow>
            invocations (snd upto) = invocations schj @ [k]
            \<and> (\<forall>outputs. h n iv ctx = Returned (PyDict outputs) \<longrightarrow>
                  fst upto = Inr (AList.update k outputs res)
                  \<and> sched_cache (snd upto)
                      = (if enable_memoization ctx
                         then cache_store (sched_cache schj) k sig outputs
                         else sched_cache schj))
            \<and> (\<forall>msg. h n iv ctx = Raised msg \<longrightarrow>
                  whole = (Inl (SchedulerError (NodeFailed (node_key n) msg)),
                           schj\<lparr>invocations := invocations schj @ [k]\<rparr>)))"
    using 1 2 3 4 5 6 by blast
  then show ?thesis
    unfolding Let_def k_def ctx_def ntotal_def reuse_def upto_def whole_def .
qed

text \<open>C2 on the example: after the first pass \<open>s\<close> is clean and its signature is the
  stored one, so the loop takes its outputs from the cache and calls no handler; with
  the same signatures but no stored outputs, \<open>evaluate\<close> fails with the cache-miss
  error.\<close>

theorem cache_reuse_decision_witness:
  "evaluate_loop example_platform example_registry RuntimeContext False False 2
      [(1, ''s'')] [] example_cached
     = (Inr [(''s'', [(''out'', PyInt 1)])], example_cached)
   \<and> evaluate example_platform example_registry (Some [''t'']) None False False example_corrupt
     = (Inl (SchedulerError (CacheMiss ''s'')), example_corrupt)"
proof -
  let ?n = "\<lparr>node_key = ''s'', node_type = ''emit'', title = None,
             parameters = [(''out'', PyInt 1)], node_metadata = []\<rparr>"
  let ?sig = "''{inputs:{},node:<s>,parameters:{out:1,},type:<emit>,}''"
  have h3: "make_signature example_platform ?n [] = Inr ?sig"
    by (simp add: make_signature_def signature_payload_def dict_of_def example_platform_def)
  have so: "set_order example_platform = listed_order [''t'', ''s'', ''r'']"
    by (simp add: example_platform_def)
  have c0: "context_of None = RuntimeContext" by (simp add: context_of_def)
  have memo: "enable_memoization RuntimeContext"
    by (simp add: enable_memoization_def RuntimeContext_def)
  have rn1: "result_nodes (sched_graph example_cached) (Some [''t'']) = [''t'']"
    by (simp add: result_nodes_def example_cached_def example_graph_value has_key_def)
  have o1: "topological_order (set_order example_platform) (sched_graph example_cached)
      (Some (result_nodes (sched_graph example_cached) (Some [''t'']))) = Inr [''s'', ''t'']"
    unfolding rn1 so
    by (rule example_order) (simp_all add: example_cached_def example_graph_value has_key_def)
  have r1: "evaluate_loop example_platform example_registry (context_of None) False False
      (length [''s'', ''t''])
      (take 0 (zip [1 ..< Suc (length [''s'', ''t''])] [''s'', ''t''])) []
      (if False then example_cached\<lparr>progress_calls := progress_calls example_cached
                       @ [(0, length [''s'', ''t''], [])]\<rparr> else example_cached)
      = (Inr [], example_cached)" by simp
  have n1: "map_of (nodes (sched_graph example_cached)) ([''s'', ''t''] ! 0) = Some ?n"
    by (simp add: example_cached_def example_graph_value)
  have i1: "collect_inputs example_cached ([''s'', ''t''] ! 0) [] = Inr []"
    by (simp add: collect_inputs_def example_cached_def example_graph_value inputs_for_def)
  have reuse1: "''s'' \<notin> dirty (sched_graph example_cached)"
    "map_of (cache_signatures (sched_cache example_cached)) ''s'' = Some ?sig"
    "cache_get (sched_cache example_cached) ''s'' = Some [(''out'', PyInt 1)]"
    by (simp_all add: example_cached_def cache_get_def)
  have cd: "example_cached\<lparr>sched_graph := clear_dirty (sched_graph example_cached) ''s'',
                 progress_calls := progress_calls example_cached\<rparr> = example_cached"
    by (simp add: example_cached_def clear_dirty_def)
  have A: "evaluate_loop example_platform example_registry RuntimeContext False False 2
      [(1, ''s'')] [] example_cached
     = (Inr [(''s'', [(''out'', PyInt 1)])], example_cached)"
    using cache_reuse_decision[OF _ o1 _ r1 n1 i1 h3] rn1 memo reuse1
    unfolding Let_def c0
    by (simp add: cd numeral_2_eq_2)
  have g2: "sched_graph example_corrupt = sched_graph example_cached"
    by (simp add: example_corrupt_def)
  have r2: "evaluate_loop example_platform example_registry (context_of None) False False
      (length [''s'', ''t''])
      (take 0 (zip [1 ..< Suc (length [''s'', ''t''])] [''s'', ''t''])) []
      (if False then example_corrupt\<lparr>progress_calls := progress_calls example_corrupt
                       @ [(0, length [''s'', ''t''], [])]\<rparr> else example_corrupt)
      = (Inr [], example_corrupt)" by simp
  have i2: "collect_inputs example_corrupt ([''s'', ''t''] ! 0) [] = Inr []"
    by (simp add: collect_inputs_def example_corrupt_def example_cached_def example_graph_value
        inputs_for_def)
  have reuse2: "''s'' \<notin> dirty (sched_graph example_corrupt)"
    "map_of (cache_signatures (sched_cache example_corrupt)) ''s'' = Some ?sig"
    "cache_get (sched_cache example_corrupt) ''s'' = None"
    by (simp_all add: example_corrupt_def example_cached_def cache_get_def)
  have B: "evaluate example_platform example_registry (Some [''t'']) None False False
      example_corrupt = (Inl (SchedulerError (CacheMiss ''s'')), example_corrupt)"
    using cache_reuse_decision[OF _ o1[folded g2] _ r2 n1[folded g2] i2 h3]
      rn1[folded g2] memo reuse2
    unfolding Let_def c0
    by (simp add: numeral_2_eq_2)
  from A B show ?thesis by simp
qed

section \<open>Two evaluations of an unchanged graph\<close>

















section \<open>Round trip of the project serialisation\<close>

definition connection_from_dict :: "connection_data \<Rightarrow> connection" where
  "connection_from_dict c = \<lparr>source_node = cd_source_node c, source_port = cd_source_port c\<rparr>"

lemma update_fresh: "k \<notin> fst ` set al \<Longrightarrow> AList.update k v al = al @ [(k, v)]"
  by (induction al) auto

lemma add_nodes_fresh:
  assumes "dependents g = []" and "distinct (map nd_key ds)"
      and "nd_key ` set ds \<inter> fst ` set (nodes g) = {}"
  shows "add_nodes g ds
      = Inr (g\<lparr>nodes := nodes g @ map (\<lambda>d. (nd_key d, node_from_dict d)) ds,
               dirty := dirty g \<union> nd_key ` set ds\<rparr>)"
  using assms
proof (induction ds arbitrary: g)
  case Nil
  show ?case by simp
next
  case (Cons d ds)
  let ?n = "node_from_dict d"
  let ?g1 = "g\<lparr>nodes := nodes g @ [(nd_key d, ?n)], dirty := insert (nd_key d) (dirty g)\<rparr>"
  have k: "node_key ?n = nd_key d" by (simp add: node_from_dict_def)
  have fresh: "nd_key d \<notin> fst ` set (nodes g)" using Cons.prems(3) by auto
  have a: "add_node g ?n = Inr ?g1"
    using fresh Cons.prems(1)
    by (simp add: add_node_def k has_key_def update_fresh mark_dirty_def dependents_of_def)
  have p1: "dependents ?g1 = []" using Cons.prems(1) by simp
  have p2: "distinct (map nd_key ds)" using Cons.prems(2) by simp
  have p3: "nd_key ` set ds \<inter> fst ` set (nodes ?g1) = {}"
    using Cons.prems(2,3) by auto
  show ?case
    using Cons.IH[OF p1 p2 p3] a by simp
qed

lemma connect_ok:
  assumes "has_key (nodes g) sn" "has_key (nodes g) tn"
  shows "\<exists>g'. connect g sn sp tn tp = Inr g' \<and> nodes g' = nodes g
     \<and> graph_name g' = graph_name g \<and> graph_metadata g' = graph_metadata g
     \<and> (\<forall>j. inputs_for g' j
            = (if j = tn then AList.update tp \<lparr>source_node = sn, source_port = sp\<rparr> (inputs_for g tn)
               else inputs_for g j))"
  using assms
  by (simp add: connect_def Let_def mark_dirty_def inputs_for_def update_conv')

lemma connect_ports_ok:
  assumes "has_key (nodes g) k"
      and "\<forall>(p, c)\<in>set ports. has_key (nodes g) (cd_source_node c)"
  shows "\<exists>g'. connect_ports g k ports = Inr g' \<and> nodes g' = nodes g
     \<and> graph_name g' = graph_name g \<and> graph_metadata g' = graph_metadata g
     \<and> (\<forall>j. inputs_for g' j
            = (if j = k then fold (\<lambda>(p, c). AList.update p (connection_from_dict c)) ports
                                  (inputs_for g k)
               else inputs_for g j))"
  using assms
proof (induction ports arbitrary: g)
  case Nil
  show ?case by simp
next
  case (Cons pc ports)
  obtain p c where pc: "pc = (p, c)" by (cases pc)
  have s: "has_key (nodes g) (cd_source_node c)" using Cons.prems(2) pc by simp
  from connect_ok[OF s Cons.prems(1), of "cd_source_port c" p] obtain g1 where
    g1: "connect g (cd_source_node c) (cd_source_port c) k p = Inr g1" "nodes g1 = nodes g"
        "graph_name g1 = graph_name g" "graph_metadata g1 = graph_metadata g"
        "\<forall>j. inputs_for g1 j
            = (if j = k then AList.update p \<lparr>source_node = cd_source_node c,
                 source_port = cd_source_port c\<rparr> (inputs_for g k) else inputs_for g j)"
    by blast
  have a1: "has_key (nodes g1) k" using Cons.prems(1) g1(2) by simp
  have a2: "\<forall>(p, c)\<in>set ports. has_key (nodes g1) (cd_source_node c)"
    using Cons.prems(2) g1(2) by simp
  from Cons.IH[OF a1 a2] obtain g' where
    g': "connect_ports g1 k ports = Inr g'" "nodes g' = nodes g1"
        "graph_name g' = graph_name g1" "graph_metadata g' = graph_metadata g1"
        "\<forall>j. inputs_for g' j
            = (if j = k then fold (\<lambda>(p, c). AList.update p (connection_from_dict c)) ports
                                  (inputs_for g1 k)
               else inputs_for g1 j)"
    by blast
  show ?case
    using g1 g' pc by (simp add: connection_from_dict_def)
qed

lemma connect_all_ok:
  assumes "distinct (map fst entries)"
      and "\<forall>(k, ports)\<in>set entries. has_key (nodes g) k
             \<and> (\<forall>(p, c)\<in>set ports. has_key (nodes g) (cd_source_node c))"
  shows "\<exists>g'. connect_all g entries = Inr g' \<and> nodes g' = nodes g
     \<and> graph_name g' = graph_name g \<and> graph_metadata g' = graph_metadata g
     \<and> (\<forall>j. inputs_for g' j
            = (case map_of entries j of
                 None \<Rightarrow> inputs_for g j
               | Some ports \<Rightarrow> fold (\<lambda>(p, c). AList.update p (connection_from_dict c)) ports
                                  (inputs_for g j)))"
  using assms
proof (induction entries arbitrary: g)
  case Nil
  show ?case by simp
next
  case (Cons e entries)
  obtain k ports where e: "e = (k, ports)" by (cases e)
  have h: "has_key (nodes g) k" "\<forall>(p, c)\<in>set ports. has_key (nodes g) (cd_source_node c)"
    using Cons.prems(2) e by auto
  from connect_ports_ok[OF h] obtain g1 where
    g1: "connect_ports g k ports = Inr g1" "nodes g1 = nodes g"
        "graph_name g1 = graph_name g" "graph_metadata g1 = graph_metadata g"
        "\<forall>j. inputs_for g1 j
            = (if j = k then fold (\<lambda>(p, c). AList.update p (connection_from_dict c)) ports
                                  (inputs_for g k)
               else inputs_for g j)"
    by blast
  have a1: "distinct (map fst entries)" using Cons.prems(1) by simp
  have a2: "\<forall>(k, ports)\<in>set entries. has_key (nodes g1) k
             \<and> (\<forall>(p, c)\<in>set ports. has_key (nodes g1) (cd_source_node c))"
    using Cons.prems(2) g1(2) by simp
  from Cons.IH[OF a1 a2] obtain g' where
    g': "connect_all g1 entries = Inr g'" "nodes g' = nodes g1"
        "graph_name g' = graph_name g1" "graph_metadata g' = graph_metadata g1"
        "\<forall>j. inputs_for g' j
            = (case map_of entries j of
                 None \<Rightarrow> inputs_for g1 j
               | Some ports \<Rightarrow> fold (\<lambda>(p, c). AList.update p (connection_from_dict c)) ports
                                  (inputs_for g1 j))"
    by blast
  have kn: "map_of entries k = None"
    using Cons.prems(1) e by (simp add: map_of_eq_None_iff)
  have "inputs_for g' j
            = (case map_of (e # entries) j of
                 None \<Rightarrow> inputs_for g j
               | Some ports \<Rightarrow> fold (\<lambda>(p, c). AList.update p (connection_from_dict c)) ports
                                  (inputs_for g j))" for j
  proof (cases "j = k")
    case True
    then show ?thesis using g'(5) g1(5) kn e by simp
  next
    case False
    then show ?thesis using g'(5) g1(5) e by (simp split: option.splits)
  qed
  then show ?case using g1 g' e by simp
qed

definition well_formed :: "graph \<Rightarrow> bool" where
  "well_formed g \<longleftrightarrow>
     distinct (map fst (nodes g))
     \<and> (\<forall>(k, n)\<in>set (nodes g). node_key n = k)
     \<and> (\<forall>k. distinct (map fst (inputs_for g k))
            \<and> (\<forall>(p, c)\<in>set (inputs_for g k). has_key (nodes g) (source_node c)))
     \<and> (\<forall>k. \<not> has_key (nodes g) k \<longrightarrow> inputs_for g k = [])"

lemma node_round_trip: "node_from_dict (node_to_dict n) = n"
  by (simp add: node_from_dict_def node_to_dict_def)

lemma connection_round_trip: "connection_from_dict (connection_to_dict c) = c"
  by (simp add: connection_from_dict_def connection_to_dict_def)

lemma fold_ports_round_trip:
  "fold (\<lambda>(p, c). AList.update p (connection_from_dict c))
        (map (\<lambda>(p, c). (p, connection_to_dict c)) xs) acc
   = fold (\<lambda>(p, c). AList.update p c) xs acc"
  by (induction xs arbitrary: acc) (auto simp: connection_round_trip)

lemma map_of_tabulate:
  "map_of (map (\<lambda>k. (k, f k)) ks) j = (if j \<in> set ks then Some (f j) else None)"
  by (induction ks) auto

text \<open>
  The round trip on a graph in which the nodes have distinct keys, each node is stored
  under its own key, the ports of a node are distinct, every connection comes from a
  node of the graph and only nodes have connections: deserialising the serialised
  graph, with the serialised node list in any order, succeeds and gives a graph with
  the same name and metadata, the same set of nodes (key, type, title, parameters,
  metadata), and for every key the same connections; with the node list in the
  serialised order the node dictionary is the same, order included.
\<close>

lemma graph_round_trip:
  assumes wf: "well_formed g"
      and ds: "set ds = set (map (\<lambda>(k, n). node_to_dict n) (nodes g))"
              "distinct (map nd_key ds)"
  shows "\<exists>g'. graph_from_dict ((graph_to_dict g)\<lparr>pl_nodes := Some ds\<rparr>) = Inr g'
     \<and> graph_name g' = graph_name g \<and> graph_metadata g' = graph_metadata g
     \<and> set (nodes g') = set (nodes g) \<and> distinct (map fst (nodes g'))
     \<and> (ds = map (\<lambda>(k, n). node_to_dict n) (nodes g) \<longrightarrow> nodes g' = nodes g)
     \<and> (\<forall>k. inputs_for g' k = inputs_for g k)"
proof -
  from wf have dn: "distinct (map fst (nodes g))"
    and kn: "\<And>k n. (k, n) \<in> set (nodes g) \<Longrightarrow> node_key n = k"
    and dp: "\<And>k. distinct (map fst (inputs_for g k))"
    and src: "\<And>k p c. (p, c) \<in> set (inputs_for g k) \<Longrightarrow> has_key (nodes g) (source_node c)"
    and out: "\<And>k. \<not> has_key (nodes g) k \<Longrightarrow> inputs_for g k = []"
    unfolding well_formed_def by auto
  let ?G0 = "Graph (graph_name g) (graph_metadata g)"
  define G1 where "G1 = ?G0\<lparr>nodes := nodes ?G0 @ map (\<lambda>d. (nd_key d, node_from_dict d)) ds,
                  dirty := dirty ?G0 \<union> nd_key ` set ds\<rparr>"
  have a: "add_nodes ?G0 ds = Inr G1"
    unfolding G1_def by (rule add_nodes_fresh) (simp_all add: Graph_def ds(2))
  have n1: "nodes G1 = map (\<lambda>d. (nd_key d, node_from_dict d)) ds"
    by (simp add: G1_def Graph_def)
  have nm1: "graph_name G1 = graph_name g" "graph_metadata G1 = graph_metadata g"
    "connections G1 = []"
    by (simp_all add: G1_def Graph_def)
  have rtrip: "(nd_key (node_to_dict n), node_from_dict (node_to_dict n)) = (k, n)"
    if "(k, n) \<in> set (nodes g)" for k n
    using kn[OF that] by (simp add: node_round_trip) (simp add: node_to_dict_def)
  have s1: "set (nodes G1) = set (nodes g)"
  proof (intro set_eqI iffI)
    fix x assume "x \<in> set (nodes G1)"
    then obtain d where d: "d \<in> set ds" "x = (nd_key d, node_from_dict d)"
      unfolding n1 by auto
    then obtain k n where "(k, n) \<in> set (nodes g)" "d = node_to_dict n"
      using ds(1) by auto
    then show "x \<in> set (nodes g)" using d(2) rtrip by simp
  next
    fix x assume x: "x \<in> set (nodes g)"
    obtain k n where kn': "x = (k, n)" by (cases x)
    then have "node_to_dict n \<in> set ds" using x ds(1) by force
    then have "(nd_key (node_to_dict n), node_from_dict (node_to_dict n)) \<in> set (nodes G1)"
      unfolding n1 by (auto simp: image_iff)
    then show "x \<in> set (nodes G1)" using rtrip x kn' by simp
  qed
  have d1: "distinct (map fst (nodes G1))"
    unfolding n1 using ds(2) by (simp add: comp_def)
  have keys1: "has_key (nodes G1) k = has_key (nodes g) k" for k
    unfolding has_key_def s1 ..
  have same: "ds = map (\<lambda>(k, n). node_to_dict n) (nodes g) \<longrightarrow> nodes G1 = nodes g"
  proof
    assume e: "ds = map (\<lambda>(k, n). node_to_dict n) (nodes g)"
    have m: "map (\<lambda>d. (nd_key d, node_from_dict d)) (map (\<lambda>(k, n). node_to_dict n) (nodes g))
        = map (\<lambda>x. x) (nodes g)"
      unfolding map_map using rtrip by (intro map_cong) auto
    have "nodes G1 = map (\<lambda>d. (nd_key d, node_from_dict d)) ds" by (rule n1)
    also have "\<dots> = map (\<lambda>d. (nd_key d, node_from_dict d))
                      (map (\<lambda>(k, n). node_to_dict n) (nodes g))"
      using e by simp
    also have "\<dots> = nodes g" using m by simp
    finally show "nodes G1 = nodes g" .
  qed
  let ?ports = "\<lambda>k. map (\<lambda>(port, c). (port, connection_to_dict c)) (inputs_for g k)"
  define entries where "entries = map (\<lambda>k. (k, ?ports k)) (map fst (nodes g))"
  have pk: "dict_of (?ports k) = ?ports k" for k
    using dp[of k] by (intro dict_of_distinct) (simp add: comp_def case_prod_unfold)
  have de: "distinct (map fst entries)" using dn by (simp add: entries_def comp_def)
  have ent: "dict_of (map (\<lambda>k. (k, dict_of (?ports k))) (map fst (nodes g))) = entries"
    unfolding pk entries_def[symmetric] using de by (rule dict_of_distinct)
  have pre: "\<forall>(k, ports)\<in>set entries. has_key (nodes G1) k
             \<and> (\<forall>(p, c)\<in>set ports. has_key (nodes G1) (cd_source_node c))"
    using src by (auto simp: entries_def has_key_def s1 connection_to_dict_def intro: rev_image_eqI)
  from connect_all_ok[OF de pre] obtain g' where
    g': "connect_all G1 entries = Inr g'" "nodes g' = nodes G1"
        "graph_name g' = graph_name G1" "graph_metadata g' = graph_metadata G1"
        "\<forall>j. inputs_for g' j
            = (case map_of entries j of
                 None \<Rightarrow> inputs_for G1 j
               | Some ports \<Rightarrow> fold (\<lambda>(p, c). AList.update p (connection_from_dict c)) ports
                                  (inputs_for G1 j))"
    by blast
  have e1: "inputs_for G1 j = []" for j by (simp add: inputs_for_def nm1)
  have mo: "map_of entries j = (if has_key (nodes g) j then Some (?ports j) else None)" for j
    unfolding entries_def
    using map_of_tabulate[of "\<lambda>k. ?ports k" "map fst (nodes g)" j] by (simp add: has_key_def)
  have inp: "inputs_for g' j = inputs_for g j" for j
  proof (cases "has_key (nodes g) j")
    case True
    have "inputs_for g' j = fold (\<lambda>(p, c). AList.update p c) (inputs_for g j) []"
      using g'(5) True by (simp add: mo e1 fold_ports_round_trip)
    also have "\<dots> = dict_of (inputs_for g j)" by (simp add: dict_of_def)
    also have "\<dots> = inputs_for g j" using dp[of j] by (rule dict_of_distinct)
    finally show ?thesis .
  next
    case False
    then show ?thesis using g'(5) out[OF False] by (simp add: mo e1)
  qed
  have pl: "graph_to_dict g =
      \<lparr>pl_name = Some (graph_name g), pl_metadata = Some (graph_metadata g),
       pl_nodes = Some (map (\<lambda>(k, n). node_to_dict n) (nodes g)),
       pl_connections = Some entries\<rparr>"
    unfolding graph_to_dict_def ent ..
  have "graph_from_dict ((graph_to_dict g)\<lparr>pl_nodes := Some ds\<rparr>) = Inr g'"
    unfolding graph_from_dict_def Let_def pl
    by (simp add: a g'(1))
  moreover have "graph_name g' = graph_name g" "graph_metadata g' = graph_metadata g"
    using g'(3,4) nm1 by simp_all
  ultimately show ?thesis
    using g'(2) s1 d1 same inp by auto
qed

text \<open>The example graph, with the two serialised nodes in reverse order.\<close>

lemma graph_round_trip_example:
  "\<exists>g'. graph_from_dict ((graph_to_dict example_graph)
            \<lparr>pl_nodes := Some [node_to_dict (plain_node ''t'' ''echo''),
                               node_to_dict ((plain_node ''s'' ''emit'')
                                  \<lparr>parameters := [(''out'', PyInt 1)]\<rparr>)]\<rparr>) = Inr g'
     \<and> set (nodes g') = set (nodes example_graph)
     \<and> inputs_for g' ''t'' = [(''in'', \<lparr>source_node = ''s'', source_port = ''out''\<rparr>)]"
proof -
  let ?ds = "[node_to_dict (plain_node ''t'' ''echo''),
              node_to_dict ((plain_node ''s'' ''emit'')\<lparr>parameters := [(''out'', PyInt 1)]\<rparr>)]"
  have inp: "inputs_for example_graph k
      = (if k = ''t'' then [(''in'', \<lparr>source_node = ''s'', source_port = ''out''\<rparr>)] else [])" for k
    by (simp add: inputs_for_def example_graph_value)
  have wf: "well_formed example_graph"
    unfolding well_formed_def inp
    by (simp add: example_graph_value has_key_def)
  have d1: "set ?ds = set (map (\<lambda>(k, n). node_to_dict n) (nodes example_graph))"
    by (simp add: example_graph_value plain_node_def insert_commute)
  have d2: "distinct (map nd_key ?ds)" by (simp add: node_to_dict_def plain_node_def)
  from graph_round_trip[OF wf d1 d2] show ?thesis using inp by auto
qed

definition dangling_graph :: graph where
  "dangling_graph = mutate_all (listed_order [''a'', ''t'']) (Graph ''g'' [])
       [AddNode (plain_node ''a'' ''x''), AddNode (plain_node ''t'' ''x''),
        Connect ''a'' ''out'' ''t'' ''p1'', Connect ''a'' ''out'' ''t'' ''p2'',
        Disconnect ''t'' ''p1'', RemoveNode ''a'']"

lemma dangling_graph_value:
  "dangling_graph =
     \<lparr>graph_name = ''g'', graph_metadata = [],
      nodes = [(''t'', plain_node ''t'' ''x'')],
      connections = [(''t'', [(''p2'', \<lparr>source_node = ''a'', source_port = ''out''\<rparr>)])],
      dependents = [], dirty = {''a'', ''t''}\<rparr>"
  by (simp add: dangling_graph_def graph_ops listed_order_def insert_commute)

text \<open>
  C9.  The claim: for every graph, deserialising the serialised graph reconstructs a
  graph with the same nodes and connections.  The graph \<open>dangling_graph\<close> is built with
  \<open>add_node\<close>, \<open>connect\<close>, \<open>disconnect\<close> and \<open>remove_node\<close> alone: \<open>a\<close> feeds the
  ports \<open>p1\<close> and \<open>p2\<close> of \<open>t\<close>, \<open>disconnect(t, p1)\<close> discards \<open>t\<close> from the dependents
  of \<open>a\<close> although \<open>t.p2\<close> is still fed by \<open>a\<close>, so \<open>remove_node(a)\<close> does not find
  \<open>t\<close> and leaves the connection \<open>t.p2 \<leftarrow> a\<close> behind.  The graph is serialised with that
  connection, and deserialising the result does not reconstruct it: \<open>connect\<close> raises
  the \<open>GraphError\<close> of a source node that does not exist.
\<close>

theorem round_trip_fails_on_dangling_source:
  "graph_from_dict (graph_to_dict dangling_graph) = Inl (GraphError (SourceMissing ''a''))"
  unfolding dangling_graph_value
  by (simp add: graph_from_dict_def graph_to_dict_def node_to_dict_def node_from_dict_def
      connection_to_dict_def dict_of_def inputs_for_def graph_ops)


end
